theory Spec2Isabelle
  imports Complex_Main "HOL-Library.Multiset"
begin

section \<open>Route optimisation engine of the NYC delivery optimizer\<close>

text \<open>
  A shallow embedding of \<^verbatim>\<open>client/src/lib/algorithms.ts\<close>: the Haversine distance
  model, the nearest-neighbour builder, the 2-opt improver, the genetic search and the
  comparator.

  Numbers. A JavaScript \<^verbatim>\<open>number\<close> that holds a distance is modelled as a \<^typ>\<open>real\<close>:
  arithmetic is exact, rounding of IEEE doubles is not modelled. The non-finite values
  the code can still produce under exact arithmetic are kept: \<^verbatim>\<open>Infinity\<close> as the start
  value of a running minimum, and the result of a division by zero.
  A number that holds an array index is an \<^typ>\<open>int\<close> (the code uses \<^verbatim>\<open>-1\<close> as a
  sentinel).

  Errors. The code has no \<^verbatim>\<open>throw\<close>; the only error it can raise is the
  \<^verbatim>\<open>TypeError\<close> of reading a property of \<^verbatim>\<open>undefined\<close>, which is what an array read
  out of range returns.

  Randomness. \<^verbatim>\<open>Math.random()\<close> is an explicit source: the \<open>c\<close>-th call returns
  \<open>r c\<close>, a real in \<open>[0, 1)\<close>, and every function that draws returns the advanced
  counter.
\<close>

subsection \<open>JavaScript numbers and array reads\<close>

datatype jsnum = Num real | PosInf | NegInf | NaN

text \<open>\<^verbatim>\<open>x < y\<close> for a finite \<open>x\<close>.\<close>

fun js_lt :: "real \<Rightarrow> jsnum \<Rightarrow> bool" where
  "js_lt x (Num y) = (x < y)"
| "js_lt x PosInf = True"
| "js_lt x NegInf = False"
| "js_lt x NaN = False"

text \<open>\<^verbatim>\<open>x / y\<close> for finite operands: a zero divisor gives \<^verbatim>\<open>NaN\<close> or an infinity.\<close>

definition js_div :: "real \<Rightarrow> real \<Rightarrow> jsnum" where
  "js_div x y =
     (if y = 0 then (if x = 0 then NaN else if 0 < x then PosInf else NegInf)
      else Num (x / y))"

text \<open>\<^verbatim>\<open>x * k\<close> for a finite \<open>k\<close>.\<close>

fun js_mul :: "jsnum \<Rightarrow> real \<Rightarrow> jsnum" where
  "js_mul (Num x) k = Num (x * k)"
| "js_mul PosInf k = (if 0 < k then PosInf else if k < 0 then NegInf else NaN)"
| "js_mul NegInf k = (if 0 < k then NegInf else if k < 0 then PosInf else NaN)"
| "js_mul NaN k = NaN"

datatype error = TypeError

text \<open>
  An array of numbers whose reads can be \<^verbatim>\<open>undefined\<close> (\<open>None\<close>): a read out of range
  returns \<^verbatim>\<open>undefined\<close>, a write past the end extends the array.
\<close>

type_synonym jsint = "int option"

definition js_nth :: "jsint list \<Rightarrow> nat \<Rightarrow> jsint" where
  "js_nth xs i = (if i < length xs then xs ! i else None)"

definition js_set :: "jsint list \<Rightarrow> nat \<Rightarrow> jsint \<Rightarrow> jsint list" where
  "js_set xs i v =
     (if i < length xs then xs[i := v] else xs @ replicate (i - length xs) None @ [v])"

text \<open>\<^verbatim>\<open>[xs[i], xs[j]] = [xs[j], xs[i]]\<close>: both reads come before both writes.\<close>

definition js_swap :: "jsint list \<Rightarrow> nat \<Rightarrow> nat \<Rightarrow> jsint list" where
  "js_swap xs i j = js_set (js_set xs i (js_nth xs j)) j (js_nth xs i)"

text \<open>Runs \<open>f\<close> over a list, left to right, and stops at the first error.\<close>

fun map_err :: "('a \<Rightarrow> error + 'b) \<Rightarrow> 'a list \<Rightarrow> error + 'b list" where
  "map_err f [] = Inr []"
| "map_err f (x # xs) =
     (case f x of
        Inl e \<Rightarrow> Inl e
      | Inr y \<Rightarrow> (case map_err f xs of Inl e \<Rightarrow> Inl e | Inr ys \<Rightarrow> Inr (y # ys)))"

subsection \<open>Data model\<close>

record Stop =
  stop_id :: string
  lat :: real
  lng :: real

record OptimizationResult =
  stops :: "Stop list"
  distance :: real
  improvement :: jsnum

subsection \<open>Distance model\<close>

text \<open>\<^verbatim>\<open>Math.atan2(y, x)\<close>, signed zeros apart.\<close>

definition atan2 :: "real \<Rightarrow> real \<Rightarrow> real" where
  "atan2 y x =
     (if 0 < x then arctan (y / x)
      else if x < 0 then (if 0 \<le> y then arctan (y / x) + pi else arctan (y / x) - pi)
      else if 0 < y then pi / 2
      else if y < 0 then - (pi / 2)
      else 0)"

definition calculateDistance :: "real \<Rightarrow> real \<Rightarrow> real \<Rightarrow> real \<Rightarrow> real" where
  "calculateDistance lat1 lng1 lat2 lng2 =
     (let R = 6371;
          dLat = ((lat2 - lat1) * pi) / 180;
          dLng = ((lng2 - lng1) * pi) / 180;
          a = sin (dLat / 2) * sin (dLat / 2) +
              cos ((lat1 * pi) / 180) * cos ((lat2 * pi) / 180) *
              sin (dLng / 2) * sin (dLng / 2);
          c = 2 * atan2 (sqrt a) (sqrt (1 - a))
      in R * c)"

definition calculateRouteDistance :: "Stop list \<Rightarrow> real" where
  "calculateRouteDistance ss =
     (if length ss < 2 then 0
      else
        (let total =
               fold (\<lambda>i total.
                       total + calculateDistance (lat (ss ! i)) (lng (ss ! i))
                                 (lat (ss ! (i + 1))) (lng (ss ! (i + 1))))
                 [0..<length ss - 1] 0
         in total + calculateDistance (lat (ss ! (length ss - 1))) (lng (ss ! (length ss - 1)))
                      (lat (ss ! 0)) (lng (ss ! 0))))"

text \<open>
  \<^verbatim>\<open>stops[i]\<close> followed by a property read: a \<^verbatim>\<open>TypeError\<close> when \<open>i\<close> is not an index
  of the array.
\<close>

definition stop_at :: "Stop list \<Rightarrow> int \<Rightarrow> error + Stop" where
  "stop_at ss i = (if 0 \<le> i \<and> i < int (length ss) then Inr (ss ! nat i) else Inl TypeError)"

text \<open>
  \<^verbatim>\<open>route.map(i => stops[i])\<close> handed to \<^verbatim>\<open>calculateRouteDistance\<close>, which reads every
  element of an array of two or more: an \<^verbatim>\<open>undefined\<close> element raises there.
\<close>

definition stops_of :: "Stop list \<Rightarrow> int list \<Rightarrow> error + Stop list" where
  "stops_of ss route = map_err (stop_at ss) route"

subsection \<open>Nearest-neighbour builder\<close>

text \<open>
  The body of \<^verbatim>\<open>unvisited.forEach\<close>, over the set's elements in insertion order, on
  the pair \<open>(nearest, minDist)\<close>.
\<close>

fun nn_scan :: "Stop list \<Rightarrow> int \<Rightarrow> int list \<Rightarrow> int \<times> jsnum \<Rightarrow> error + int \<times> jsnum" where
  "nn_scan ss current [] (nearest, minDist) = Inr (nearest, minDist)"
| "nn_scan ss current (idx # rest) (nearest, minDist) =
     (case stop_at ss current of
        Inl e \<Rightarrow> Inl e
      | Inr sc \<Rightarrow>
          (case stop_at ss idx of
             Inl e \<Rightarrow> Inl e
           | Inr si \<Rightarrow>
               (let dist = calculateDistance (lat sc) (lng sc) (lat si) (lng si)
                in if js_lt dist minDist then nn_scan ss current rest (idx, Num dist)
                   else nn_scan ss current rest (nearest, minDist))))"

lemma nn_scan_member:
  "nn_scan ss current unvisited (nearest, minDist) = Inr (nearest', minDist') \<Longrightarrow>
     nearest' = nearest \<and> minDist' = minDist \<and> (unvisited \<noteq> [] \<longrightarrow> minDist \<noteq> PosInf)
       \<or> nearest' \<in> set unvisited"
proof (induction unvisited arbitrary: nearest minDist)
  case Nil
  then show ?case by simp
next
  case (Cons idx rest)
  show ?case
  proof (cases "stop_at ss current")
    case (Inl e)
    then show ?thesis using Cons.prems by simp
  next
    case sc: (Inr sc)
    show ?thesis
    proof (cases "stop_at ss idx")
      case (Inl e)
      then show ?thesis using Cons.prems sc by simp
    next
      case si: (Inr si)
      show ?thesis
      proof (cases "js_lt (calculateDistance (lat sc) (lng sc) (lat si) (lng si)) minDist")
        case True
        then have "nn_scan ss current rest (idx, Num (calculateDistance (lat sc) (lng sc) (lat si) (lng si)))
                     = Inr (nearest', minDist')"
          using Cons.prems sc si by simp
        from Cons.IH[OF this] show ?thesis by auto
      next
        case False
        then have ne: "minDist \<noteq> PosInf" by (cases minDist) auto
        from False have "nn_scan ss current rest (nearest, minDist) = Inr (nearest', minDist')"
          using Cons.prems sc si by simp
        from Cons.IH[OF this] ne show ?thesis by auto
      qed
    qed
  qed
qed

text \<open>
  The \<^verbatim>\<open>while (unvisited.size > 0)\<close> loop. \<open>unvisited\<close> is the set as the list of its
  elements in insertion order. When the scan leaves \<^verbatim>\<open>nearest = -1\<close> the code pushes it and
  the next scan reads \<^verbatim>\<open>stops[-1].lat\<close>: the recursion reaches that \<^verbatim>\<open>TypeError\<close>.
\<close>

function nn_loop :: "Stop list \<Rightarrow> int list \<Rightarrow> int list \<Rightarrow> error + int list" where
  "nn_loop ss route unvisited =
     (if unvisited = [] then Inr route
      else if route = [] then Inl TypeError
      else
        (case nn_scan ss (last route) unvisited (- 1, PosInf) of
           Inl e \<Rightarrow> Inl e
         | Inr (nearest, minDist) \<Rightarrow>
             nn_loop ss (route @ [nearest]) (removeAll nearest unvisited)))"
  by pat_completeness auto
termination
proof (relation "measure (\<lambda>(ss, route, unvisited). length unvisited)")
  show "wf (measure (\<lambda>(ss, route, unvisited). length unvisited))" by simp
next
  fix ss :: "Stop list" and route unvisited :: "int list" and x2 :: "int \<times> jsnum" and nearest minDist
  assume u: "unvisited \<noteq> []"
    and s: "nn_scan ss (last route) unvisited (- 1, PosInf) = Inr x2"
    and x: "(nearest, minDist) = x2"
  from s x have "nn_scan ss (last route) unvisited (- 1, PosInf) = Inr (nearest, minDist)" by simp
  from nn_scan_member[OF this] u have "nearest \<in> set unvisited" by simp
  then have "length (removeAll nearest unvisited) < length unvisited"
    by (rule length_removeAll_less)
  then show "((ss, route @ [nearest], removeAll nearest unvisited), (ss, route, unvisited))
               \<in> measure (\<lambda>(ss, route, unvisited). length unvisited)"
    by simp
qed

declare nn_loop.simps [simp del]

definition nearestNeighbor :: "Stop list \<Rightarrow> error + OptimizationResult" where
  "nearestNeighbor ss =
     (if length ss < 2 then Inr \<lparr>stops = ss, distance = 0, improvement = Num 0\<rparr>
      else
        (let unvisited = removeAll 0 (map int [0..<length ss]);
             route = [0]
         in case nn_loop ss route unvisited of
              Inl e \<Rightarrow> Inl e
            | Inr route' \<Rightarrow>
                (case stops_of ss route' of
                   Inl e \<Rightarrow> Inl e
                 | Inr optimizedStops \<Rightarrow>
                     Inr \<lparr>stops = optimizedStops,
                          distance = calculateRouteDistance optimizedStops,
                          improvement = Num 0\<rparr>)))"

subsection \<open>2-opt improver\<close>

text \<open>
  The \<^verbatim>\<open>while (left < right)\<close> loop on the copy \<^verbatim>\<open>newRoute\<close>; it is called with
  \<open>right = j\<close>, an index of the route.
\<close>

function reverse_segment :: "int list \<Rightarrow> nat \<Rightarrow> nat \<Rightarrow> int list" where
  "reverse_segment newRoute left right =
     (if left < right
      then reverse_segment (newRoute[left := newRoute ! right, right := newRoute ! left])
             (left + 1) (right - 1)
      else newRoute)"
  by pat_completeness auto
termination
  by (relation "measure (\<lambda>(newRoute, left, right). right - left)") auto

declare reverse_segment.simps [simp del]

lemma reverse_segment_step:
  "left < right \<Longrightarrow>
     reverse_segment newRoute left right =
       reverse_segment (newRoute[left := newRoute ! right, right := newRoute ! left])
         (left + 1) (right - 1)"
  by (subst reverse_segment.simps) simp

lemma reverse_segment_stop: "\<not> left < right \<Longrightarrow> reverse_segment newRoute left right = newRoute"
  by (subst reverse_segment.simps) simp

lemma length_reverse_segment: "length (reverse_segment newRoute left right) = length newRoute"
proof (induction newRoute left right rule: reverse_segment.induct)
  case (1 newRoute left right)
  show ?case
  proof (cases "left < right")
    case True
    from "1"[OF True] show ?thesis by (simp add: reverse_segment_step[OF True])
  next
    case False
    then show ?thesis by (simp add: reverse_segment_stop)
  qed
qed

text \<open>
  The body of the inner \<^verbatim>\<open>for\<close> loop at \<open>(i, j)\<close>, on the pair \<open>(route, improved)\<close>.
  The loop guards give \<open>i + 1 < j < length route\<close>, so the four reads of \<open>route\<close> are in
  range.
\<close>

definition twoOpt_exchange ::
  "Stop list \<Rightarrow> nat \<Rightarrow> nat \<Rightarrow> int list \<times> bool \<Rightarrow> error + int list \<times> bool" where
  "twoOpt_exchange ss i j st =
     (case st of (route, improved) \<Rightarrow>
        (let a = route ! i;
             b = route ! (i + 1);
             c = route ! j;
             d = route ! ((j + 1) mod length route)
         in case stop_at ss a of
              Inl e \<Rightarrow> Inl e
            | Inr sa \<Rightarrow>
                (case stop_at ss b of
                   Inl e \<Rightarrow> Inl e
                 | Inr sb \<Rightarrow>
                     (case stop_at ss c of
                        Inl e \<Rightarrow> Inl e
                      | Inr sc \<Rightarrow>
                          (case stop_at ss d of
                             Inl e \<Rightarrow> Inl e
                           | Inr sd \<Rightarrow>
                               (let currentDist =
                                      calculateDistance (lat sa) (lng sa) (lat sb) (lng sb) +
                                      calculateDistance (lat sc) (lng sc) (lat sd) (lng sd);
                                    newDist =
                                      calculateDistance (lat sa) (lng sa) (lat sc) (lng sc) +
                                      calculateDistance (lat sb) (lng sb) (lat sd) (lng sd)
                                in if newDist < currentDist
                                   then Inr (reverse_segment route (i + 1) j, True)
                                   else Inr (route, improved)))))))"

lemma twoOpt_exchange_cases:
  assumes "twoOpt_exchange ss i j (route, improved) = Inr (route', improved')"
  shows "(route', improved') = (reverse_segment route (i + 1) j, True) \<or>
         (route', improved') = (route, improved)"
  using assms unfolding twoOpt_exchange_def Let_def
  by (simp split: sum.splits if_splits)

lemma twoOpt_exchange_length:
  "twoOpt_exchange ss i j (route, improved) = Inr (route', improved') \<Longrightarrow>
     length route' = length route"
  by (drule twoOpt_exchange_cases) (auto simp: length_reverse_segment)

text \<open>\<^verbatim>\<open>for (let j = ...; j < route.length; j++)\<close>, entered with \<open>j = i + 2\<close>.\<close>

function twoOpt_j ::
  "Stop list \<Rightarrow> nat \<Rightarrow> nat \<Rightarrow> int list \<times> bool \<Rightarrow> error + int list \<times> bool" where
  "twoOpt_j ss i j (route, improved) =
     (if j < length route
      then (case twoOpt_exchange ss i j (route, improved) of
              Inl e \<Rightarrow> Inl e
            | Inr st \<Rightarrow> twoOpt_j ss i (j + 1) st)
      else Inr (route, improved))"
  by pat_completeness auto
termination
proof (relation "measure (\<lambda>(ss, i, j, st). length (fst st) - j)")
  show "wf (measure (\<lambda>(ss, i, j, st). length (fst st) - j))" by simp
next
  fix ss :: "Stop list" and i j :: nat and route :: "int list" and improved :: bool
    and st :: "int list \<times> bool"
  assume j: "j < length route"
    and e: "twoOpt_exchange ss i j (route, improved) = Inr st"
  obtain route' improved' where st: "st = (route', improved')" by (cases st)
  from e st have "length route' = length route" by (auto dest: twoOpt_exchange_length)
  with j st show "((ss, i, j + 1, st), (ss, i, j, route, improved))
                    \<in> measure (\<lambda>(ss, i, j, st). length (fst st) - j)"
    by simp
qed

declare twoOpt_j.simps [simp del]

lemma twoOpt_j_length:
  "twoOpt_j ss i j (route, improved) = Inr (route', improved') \<Longrightarrow>
     length route' = length route"
proof (induction ss i j "(route, improved)" arbitrary: route improved
       rule: twoOpt_j.induct)
  case (1 ss i j route improved)
  show ?case
  proof (cases "j < length route")
    case False
    with "1.prems" show ?thesis by (simp add: twoOpt_j.simps)
  next
    case True
    show ?thesis
    proof (cases "twoOpt_exchange ss i j (route, improved)")
      case (Inl e)
      with True "1.prems" show ?thesis by (simp add: twoOpt_j.simps)
    next
      case (Inr st)
      obtain r1 i1 where st: "st = (r1, i1)" by (cases st)
      from Inr st have l: "length r1 = length route" by (auto dest: twoOpt_exchange_length)
      from True Inr st "1.prems" have r: "twoOpt_j ss i (j + 1) (r1, i1) = Inr (route', improved')"
        by (simp add: twoOpt_j.simps[of ss i j])
      from Inr st have e: "twoOpt_exchange ss i j (route, improved) = Inr (r1, i1)" by simp
      from "1.hyps"[OF True e r] l show ?thesis by simp
    qed
  qed
qed

text \<open>\<^verbatim>\<open>for (let i = 0; i < route.length - 2; i++)\<close>.\<close>

function twoOpt_i ::
  "Stop list \<Rightarrow> nat \<Rightarrow> int list \<times> bool \<Rightarrow> error + int list \<times> bool" where
  "twoOpt_i ss i (route, improved) =
     (if int i < int (length route) - 2
      then (case twoOpt_j ss i (i + 2) (route, improved) of
              Inl e \<Rightarrow> Inl e
            | Inr st \<Rightarrow> twoOpt_i ss (i + 1) st)
      else Inr (route, improved))"
  by pat_completeness auto
termination
proof (relation "measure (\<lambda>(ss, i, st). length (fst st) - i)")
  show "wf (measure (\<lambda>(ss, i, st). length (fst st) - i))" by simp
next
  fix ss :: "Stop list" and i :: nat and route :: "int list" and improved :: bool
    and st :: "int list \<times> bool"
  assume i: "int i < int (length route) - 2"
    and e: "twoOpt_j ss i (i + 2) (route, improved) = Inr st"
  obtain route' improved' where st: "st = (route', improved')" by (cases st)
  from e st have "length route' = length route" by (auto dest: twoOpt_j_length)
  with i st show "((ss, i + 1, st), (ss, i, route, improved))
                    \<in> measure (\<lambda>(ss, i, st). length (fst st) - i)"
    by simp
qed

declare twoOpt_i.simps [simp del]

text \<open>
  \<^verbatim>\<open>while (improved && iteration < maxIterations)\<close>; each pass starts with
  \<^verbatim>\<open>improved = false\<close>. \<open>maxIterations\<close> is a count.
\<close>

function twoOpt_while ::
  "Stop list \<Rightarrow> nat \<Rightarrow> int list \<times> bool \<times> nat \<Rightarrow> error + int list" where
  "twoOpt_while ss maxIterations (route, improved, iteration) =
     (if improved \<and> iteration < maxIterations
      then (case twoOpt_i ss 0 (route, False) of
              Inl e \<Rightarrow> Inl e
            | Inr (route', improved') \<Rightarrow>
                twoOpt_while ss maxIterations (route', improved', iteration + 1))
      else Inr route)"
  by pat_completeness auto
termination
  by (relation "measure (\<lambda>(ss, maxIterations, route, improved, iteration).
                            maxIterations - iteration)") auto

declare twoOpt_while.simps [simp del]

definition twoOpt :: "Stop list \<Rightarrow> nat \<Rightarrow> error + OptimizationResult" where
  "twoOpt ss maxIterations =
     (if length ss < 4 then nearestNeighbor ss
      else
        (case nearestNeighbor ss of
           Inl e \<Rightarrow> Inl e
         | Inr nnResult \<Rightarrow>
             (let route = map int [0..<length (stops nnResult)]
              in case twoOpt_while ss maxIterations (route, True, 0) of
                   Inl e \<Rightarrow> Inl e
                 | Inr route' \<Rightarrow>
                     (case stops_of ss route' of
                        Inl e \<Rightarrow> Inl e
                      | Inr optimizedStops \<Rightarrow>
                          (let dist = calculateRouteDistance optimizedStops;
                               nnDistance = calculateRouteDistance (stops nnResult)
                           in Inr \<lparr>stops = optimizedStops,
                                   distance = dist,
                                   improvement =
                                     js_mul (js_div (nnDistance - dist) nnDistance) 100\<rparr>)))))"

subsection \<open>Genetic search\<close>

text \<open>The values of \<^verbatim>\<open>Math.random()\<close>: the reals of \<open>[0, 1)\<close>.\<close>

typedef unit_real = "{x :: real. 0 \<le> x \<and> x < 1}"
  by (rule exI[of _ 0]) simp

type_synonym rng = "nat \<Rightarrow> unit_real"

text \<open>\<^verbatim>\<open>Math.floor(Math.random() * m)\<close>, for the \<open>c\<close>-th draw.\<close>

definition random_below :: "rng \<Rightarrow> nat \<Rightarrow> nat \<Rightarrow> nat" where
  "random_below r c m = nat \<lfloor>Rep_unit_real (r c) * real m\<rfloor>"

text \<open>\<^verbatim>\<open>Array.from({ length: n }, (_, i) => i)\<close>.\<close>

definition identity_route :: "nat \<Rightarrow> jsint list" where
  "identity_route n = map (\<lambda>i. Some (int i)) [0..<n]"

text \<open>The Fisher-Yates loop \<^verbatim>\<open>for (let j = route.length - 1; j > 0; j--)\<close>.\<close>

fun shuffle_from :: "rng \<Rightarrow> nat \<Rightarrow> jsint list \<Rightarrow> nat \<Rightarrow> jsint list \<times> nat" where
  "shuffle_from r c route 0 = (route, c)"
| "shuffle_from r c route (Suc j) =
     (let k = random_below r c (Suc j + 1)
      in shuffle_from r (c + 1) (js_swap route (Suc j) k) j)"

definition shuffle :: "rng \<Rightarrow> nat \<Rightarrow> jsint list \<Rightarrow> jsint list \<times> nat" where
  "shuffle r c route = shuffle_from r c route (length route - 1)"

text \<open>The loop that creates the initial population of \<open>m\<close> shuffled routes over \<open>n\<close> stops.\<close>

fun init_population :: "rng \<Rightarrow> nat \<Rightarrow> nat \<Rightarrow> nat \<Rightarrow> jsint list list \<times> nat" where
  "init_population r c n 0 = ([], c)"
| "init_population r c n (Suc m) =
     (case shuffle r c (identity_route n) of
        (route, c1) \<Rightarrow>
          (case init_population r c1 n m of
             (rest, c2) \<Rightarrow> (route # rest, c2)))"

text \<open>\<^verbatim>\<open>stops[i]\<close> for a gene \<open>i\<close>, followed by a property read.\<close>

definition gene_stop :: "Stop list \<Rightarrow> jsint \<Rightarrow> error + Stop" where
  "gene_stop ss g = (case g of None \<Rightarrow> Inl TypeError | Some i \<Rightarrow> stop_at ss i)"

definition route_stops :: "Stop list \<Rightarrow> jsint list \<Rightarrow> error + Stop list" where
  "route_stops ss route = map_err (gene_stop ss) route"

text \<open>
  \<^verbatim>\<open>calculateRouteDistance(route.map(i => stops[i]))\<close>: an array of fewer than two
  elements is not read.
\<close>

definition route_distance :: "Stop list \<Rightarrow> jsint list \<Rightarrow> error + real" where
  "route_distance ss route =
     (if length route < 2 then Inr 0
      else (case route_stops ss route of
              Inl e \<Rightarrow> Inl e
            | Inr routeStops \<Rightarrow> Inr (calculateRouteDistance routeStops)))"

definition fitness_of :: "Stop list \<Rightarrow> jsint list list \<Rightarrow> error + real list" where
  "fitness_of ss population =
     map_err (\<lambda>route. case route_distance ss route of
                         Inl e \<Rightarrow> Inl e
                       | Inr d \<Rightarrow> Inr (1 / (d + 1 / 10)))
       population"

text \<open>
  The 2-way tournament
  \<^verbatim>\<open>fitness[idx1] > fitness[idx2] ? population[idx1] : population[idx2]\<close>.
  Both indices are drawn below \<^verbatim>\<open>populationSize\<close>, the length of both arrays.
\<close>

definition tournament :: "real list \<Rightarrow> jsint list list \<Rightarrow> nat \<Rightarrow> nat \<Rightarrow> jsint list" where
  "tournament fitness population idx1 idx2 =
     (if fitness ! idx1 > fitness ! idx2 then population ! idx1 else population ! idx2)"

text \<open>\<^verbatim>\<open>for (let i = a; i <= b; i++) child[i] = parent1[i]\<close>.\<close>

definition copy_segment :: "jsint list \<Rightarrow> jsint list \<Rightarrow> nat \<Rightarrow> nat \<Rightarrow> jsint list" where
  "copy_segment child parent1 a b =
     fold (\<lambda>i child. js_set child i (js_nth parent1 i)) [a..<b + 1] child"

text \<open>
  The loop \<^verbatim>\<open>while (childIdx !== a)\<close> of the order crossover. Nothing bounds it: it
  returns only when the fill cursor comes back to \<open>a\<close>.
\<close>

partial_function (option) fill_remaining ::
  "jsint list \<Rightarrow> nat \<Rightarrow> nat \<Rightarrow> jsint list \<Rightarrow> nat \<Rightarrow> nat \<Rightarrow> jsint list option" where
  "fill_remaining parent2 sz a child childIdx parent2Idx =
     (if childIdx = a then Some child
      else if js_nth parent2 parent2Idx \<notin> set child
      then fill_remaining parent2 sz a (js_set child childIdx (js_nth parent2 parent2Idx))
             ((childIdx + 1) mod sz) ((parent2Idx + 1) mod sz)
      else fill_remaining parent2 sz a child childIdx ((parent2Idx + 1) mod sz))"

text \<open>
  \<^verbatim>\<open>orderCrossover\<close>, with its two draws. For an empty \<open>parent1\<close> the code computes
  \<^verbatim>\<open>1 % 0 = NaN\<close> for both cursors and its loop never ends.
\<close>

definition orderCrossover ::
  "rng \<Rightarrow> nat \<Rightarrow> jsint list \<Rightarrow> jsint list \<Rightarrow> (jsint list \<times> nat) option" where
  "orderCrossover r c parent1 parent2 =
     (let sz = length parent1;
          start = random_below r c sz;
          en = random_below r (c + 1) sz;
          a = (if start < en then start else en);
          b = (if start < en then en else start);
          child = copy_segment (replicate sz (Some (- 1))) parent1 a b
      in if sz = 0 then None
         else (case fill_remaining parent2 sz a child ((b + 1) mod sz) ((b + 1) mod sz) of
                 None \<Rightarrow> None
               | Some child' \<Rightarrow> Some (child', c + 2)))"

definition mutate :: "rng \<Rightarrow> nat \<Rightarrow> jsint list \<Rightarrow> jsint list \<times> nat" where
  "mutate r c route =
     (let i = random_below r c (length route);
          j = random_below r (c + 1) (length route)
      in (js_swap route i j, c + 2))"

text \<open>One turn of the breeding loop: two tournaments, the crossover, the mutation.\<close>

definition breed ::
  "rng \<Rightarrow> nat \<Rightarrow> jsint list list \<Rightarrow> real list \<Rightarrow> nat \<Rightarrow> (jsint list \<times> nat) option" where
  "breed r c population fitness populationSize =
     (let idx1 = random_below r c populationSize;
          idx2 = random_below r (c + 1) populationSize;
          parent1 = tournament fitness population idx1 idx2;
          idx3 = random_below r (c + 2) populationSize;
          idx4 = random_below r (c + 3) populationSize;
          parent2 = tournament fitness population idx3 idx4
      in case orderCrossover r (c + 4) parent1 parent2 of
           None \<Rightarrow> None
         | Some (child, c') \<Rightarrow>
             (if Rep_unit_real (r c') < 1 / 10 then Some (mutate r (c' + 1) child)
              else Some (child, c' + 1)))"

text \<open>The breeding loop, \<open>m\<close> turns to go.\<close>

fun breed_all ::
  "rng \<Rightarrow> nat \<Rightarrow> jsint list list \<Rightarrow> real list \<Rightarrow> nat \<Rightarrow> nat \<Rightarrow>
     (jsint list list \<times> nat) option" where
  "breed_all r c population fitness populationSize 0 = Some ([], c)"
| "breed_all r c population fitness populationSize (Suc m) =
     (case breed r c population fitness populationSize of
        None \<Rightarrow> None
      | Some (child, c1) \<Rightarrow>
          (case breed_all r c1 population fitness populationSize m of
             None \<Rightarrow> None
           | Some (rest, c2) \<Rightarrow> Some (child # rest, c2)))"

text \<open>The generation loop, \<open>g\<close> generations to go.\<close>

fun evolve ::
  "rng \<Rightarrow> nat \<Rightarrow> Stop list \<Rightarrow> jsint list list \<Rightarrow> nat \<Rightarrow> nat \<Rightarrow>
     (error + jsint list list \<times> nat) option" where
  "evolve r c ss population populationSize 0 = Some (Inr (population, c))"
| "evolve r c ss population populationSize (Suc g) =
     (case fitness_of ss population of
        Inl e \<Rightarrow> Some (Inl e)
      | Inr fitness \<Rightarrow>
          (case breed_all r c population fitness populationSize populationSize of
             None \<Rightarrow> None
           | Some (newPopulation, c') \<Rightarrow> evolve r c' ss newPopulation populationSize g))"

text \<open>\<^verbatim>\<open>Math.min(...xs)\<close>: \<^verbatim>\<open>Infinity\<close> for no argument.\<close>

definition js_min :: "real list \<Rightarrow> jsnum" where
  "js_min xs = (if xs = [] then PosInf else Num (Min (set xs)))"

text \<open>\<^verbatim>\<open>xs.indexOf(v)\<close>, counting from \<open>i\<close>: the first index, or \<open>-1\<close>.\<close>

fun index_from :: "jsnum \<Rightarrow> real list \<Rightarrow> int \<Rightarrow> int" where
  "index_from v [] i = - 1"
| "index_from v (x # xs) i = (if Num x = v then i else index_from v xs (i + 1))"

definition indexOf :: "real list \<Rightarrow> jsnum \<Rightarrow> int" where
  "indexOf xs v = index_from v xs 0"

text \<open>
  \<^verbatim>\<open>geneticAlgorithm\<close>. \<open>None\<close>: the call does not return. \<^verbatim>\<open>population[bestIdx]\<close> is
  \<^verbatim>\<open>undefined\<close> for \<open>bestIdx = -1\<close>, and \<^verbatim>\<open>bestRoute.map\<close> raises. The chromosome
  \<open>bestRoute\<close> has as many genes as there are stops, four or more.
\<close>

definition geneticAlgorithm ::
  "rng \<Rightarrow> nat \<Rightarrow> Stop list \<Rightarrow> nat \<Rightarrow> nat \<Rightarrow> (error + OptimizationResult \<times> nat) option" where
  "geneticAlgorithm r c ss populationSize generations =
     (if length ss < 4
      then (case nearestNeighbor ss of Inl e \<Rightarrow> Some (Inl e) | Inr res \<Rightarrow> Some (Inr (res, c)))
      else
        (case init_population r c (length ss) populationSize of
           (population0, c0) \<Rightarrow>
             (case evolve r c0 ss population0 populationSize generations of
                None \<Rightarrow> None
              | Some (Inl e) \<Rightarrow> Some (Inl e)
              | Some (Inr (population, c1)) \<Rightarrow>
                  (case map_err (route_distance ss) population of
                     Inl e \<Rightarrow> Some (Inl e)
                   | Inr fitness \<Rightarrow>
                       (let bestIdx = indexOf fitness (js_min fitness)
                        in if bestIdx < 0 \<or> int (length population) \<le> bestIdx
                           then Some (Inl TypeError)
                           else
                             (let bestRoute = population ! nat bestIdx
                              in case route_stops ss bestRoute of
                                   Inl e \<Rightarrow> Some (Inl e)
                                 | Inr optimizedStops \<Rightarrow>
                                     (let dist = calculateRouteDistance optimizedStops
                                      in case nearestNeighbor ss of
                                           Inl e \<Rightarrow> Some (Inl e)
                                         | Inr nn \<Rightarrow>
                                             (let nnDistance = calculateRouteDistance (stops nn)
                                              in Some (Inr (\<lparr>stops = optimizedStops,
                                                             distance = dist,
                                                             improvement =
                                                               js_mul (js_div (nnDistance - dist)
                                                                         nnDistance) 100\<rparr>,
                                                           c1))))))))))"

subsection \<open>Comparator\<close>


section \<open>Notions used in the statements\<close>

subsection \<open>Distances\<close>

text \<open>The argument of the square roots in \<^const>\<open>calculateDistance\<close>.\<close>

definition haversine_a :: "real \<Rightarrow> real \<Rightarrow> real \<Rightarrow> real \<Rightarrow> real" where
  "haversine_a lat1 lng1 lat2 lng2 =
     sin ((((lat2 - lat1) * pi) / 180) / 2) * sin ((((lat2 - lat1) * pi) / 180) / 2) +
     cos ((lat1 * pi) / 180) * cos ((lat2 * pi) / 180) *
     sin ((((lng2 - lng1) * pi) / 180) / 2) * sin ((((lng2 - lng1) * pi) / 180) / 2)"

text \<open>Kilometres per degree of arc on the sphere of radius 6371.\<close>

definition K_deg :: real where
  "K_deg = 6371 * (pi / 180)"

text \<open>The distance between two stops, as every caller of \<^const>\<open>calculateDistance\<close> computes it.\<close>

definition stopDistance :: "Stop \<Rightarrow> Stop \<Rightarrow> real" where
  "stopDistance s t = calculateDistance (lat s) (lng s) (lat t) (lng t)"

text \<open>The sum of the distances from each stop to its successor on the cycle.\<close>

definition cyclic_length :: "Stop list \<Rightarrow> real" where
  "cyclic_length ss = sum_list (map2 stopDistance ss (rotate1 ss))"

text \<open>The sum of the distances from each stop to the next one in the list.\<close>

definition path_length :: "Stop list \<Rightarrow> real" where
  "path_length ss = sum_list (map2 stopDistance ss (tl ss))"

subsection \<open>Indices and routes\<close>

text \<open>An index of the array of stops.\<close>

definition valid_index :: "Stop list \<Rightarrow> int \<Rightarrow> bool" where
  "valid_index ss i = (0 \<le> i \<and> i < int (length ss))"

text \<open>The distance from the stop at index \<open>cur\<close> to the stop at index \<open>i\<close>.\<close>

definition index_distance :: "Stop list \<Rightarrow> int \<Rightarrow> int \<Rightarrow> real" where
  "index_distance ss cur i = stopDistance (ss ! nat cur) (ss ! nat i)"

text \<open>The cyclic distance of the tour that a route of indices stands for.\<close>

definition route_length :: "Stop list \<Rightarrow> int list \<Rightarrow> real" where
  "route_length ss route = cyclic_length (map (\<lambda>i. ss ! nat i) route)"

text \<open>A route of the 2-opt improver that holds each index of the stops once.\<close>

definition index_permutation :: "Stop list \<Rightarrow> int list \<Rightarrow> bool" where
  "index_permutation ss route = (mset route = mset (map int [0..<length ss]))"

text \<open>A chromosome over \<open>n\<close> stops holds each index below \<open>n\<close> once.\<close>

definition chromosome :: "nat \<Rightarrow> jsint list \<Rightarrow> bool" where
  "chromosome n route = (mset route = mset (identity_route n))"

text \<open>A population of \<open>m\<close> chromosomes over \<open>n\<close> stops.\<close>

definition population_of :: "nat \<Rightarrow> nat \<Rightarrow> jsint list list \<Rightarrow> bool" where
  "population_of n m population =
     (length population = m \<and> (\<forall>route\<in>set population. chromosome n route))"

text \<open>The positions from \<open>x\<close> up to, not including, \<open>y\<close>, going round modulo \<open>n\<close>.\<close>

definition cyc_interval :: "nat \<Rightarrow> nat \<Rightarrow> nat \<Rightarrow> nat set" where
  "cyc_interval n x y = (if x \<le> y then {x..<y} else {x..<n} \<union> {..<y})"

text \<open>The stops a chromosome visits, in its order.\<close>

definition tour_of :: "Stop list \<Rightarrow> jsint list \<Rightarrow> Stop list" where
  "tour_of ss route = map (\<lambda>g. ss ! nat (the g)) route"

subsection \<open>Results\<close>



subsection \<open>Inputs used as instances\<close>


text \<open>Four stops with their own identifiers at one pair of coordinates.\<close>

definition same_place :: "Stop list" where
  "same_place =
     [\<lparr>stop_id = ''a'', lat = 40, lng = - 74\<rparr>, \<lparr>stop_id = ''b'', lat = 40, lng = - 74\<rparr>,
      \<lparr>stop_id = ''c'', lat = 40, lng = - 74\<rparr>, \<lparr>stop_id = ''d'', lat = 40, lng = - 74\<rparr>]"


text \<open>
  Five stops: four on the equator at longitudes 0, 70, 150 and -140, and the north pole
  in third place.
\<close>

definition pole_detour :: "Stop list" where
  "pole_detour =
     [\<lparr>stop_id = ''a'', lat = 0, lng = 0\<rparr>, \<lparr>stop_id = ''b'', lat = 0, lng = 70\<rparr>,
      \<lparr>stop_id = ''c'', lat = 90, lng = 0\<rparr>, \<lparr>stop_id = ''d'', lat = 0, lng = 150\<rparr>,
      \<lparr>stop_id = ''e'', lat = 0, lng = - 140\<rparr>]"

text \<open>A random source whose every draw is 0.\<close>

definition zero_rng :: rng where
  "zero_rng = (\<lambda>c. Abs_unit_real 0)"

section \<open>Facts about the distance model\<close>

lemma calculateDistance_a:
  "calculateDistance lat1 lng1 lat2 lng2 =
     6371 * (2 * atan2 (sqrt (haversine_a lat1 lng1 lat2 lng2))
                       (sqrt (1 - haversine_a lat1 lng1 lat2 lng2)))"
  by (simp add: calculateDistance_def haversine_a_def Let_def)

lemma sin_sq_half: "sin (x / 2) * sin (x / 2) = (1 - cos x) / (2::real)"
proof -
  have "cos x = cos (2 * (x / 2))" by simp
  also have "\<dots> = 1 - 2 * (sin (x / 2))\<^sup>2" by (rule cos_double_sin)
  finally show ?thesis by (simp add: power2_eq_square)
qed





lemma haversine_a_sym: "haversine_a lat1 lng1 lat2 lng2 = haversine_a lat2 lng2 lat1 lng1"
proof -
  have 1: "(((lat1 - lat2) * pi) / 180) / 2 = - ((((lat2 - lat1) * pi) / 180) / 2)"
    by (simp add: left_diff_distrib diff_divide_distrib)
  have 2: "(((lng1 - lng2) * pi) / 180) / 2 = - ((((lng2 - lng1) * pi) / 180) / 2)"
    by (simp add: left_diff_distrib diff_divide_distrib)
  show ?thesis
    unfolding haversine_a_def 1 2 by (simp add: mult.commute)
qed

lemma calculateDistance_sym:
  "calculateDistance lat1 lng1 lat2 lng2 = calculateDistance lat2 lng2 lat1 lng1"
  unfolding calculateDistance_a by (simp add: haversine_a_sym)

lemma calculateDistance_same: "calculateDistance la lo la lo = 0"
  by (simp add: calculateDistance_def atan2_def)


lemma atan2_abs_sin_cos:
  assumes "0 \<le> t" "t \<le> pi / 2"
  shows "atan2 \<bar>sin t\<bar> \<bar>cos t\<bar> = t"
proof (cases "t = pi / 2")
  case True
  show ?thesis unfolding True by (simp add: atan2_def)
next
  case False
  then have t: "t < pi / 2" using assms by simp
  have c: "0 < cos t" using assms t by (intro cos_gt_zero_pi) auto
  have s: "0 \<le> sin t" using assms t by (intro sin_ge_zero) auto
  have "arctan (sin t / cos t) = arctan (tan t)" by (simp add: tan_def)
  also have "\<dots> = t" using assms t by (intro arctan_tan) auto
  finally show ?thesis using c s by (simp add: atan2_def)
qed

lemma haversine_a_equator:
  "haversine_a 0 x 0 y = sin ((((y - x) * pi) / 180) / 2) * sin ((((y - x) * pi) / 180) / 2)"
  by (simp add: haversine_a_def)

lemma one_minus_sin_sq: "1 - sin t * sin t = cos t * cos (t::real)"
proof -
  have "(sin t)\<^sup>2 + (cos t)\<^sup>2 = 1" by simp
  then show ?thesis by (simp add: power2_eq_square)
qed

lemma calculateDistance_equator_half:
  assumes "\<bar>y - x\<bar> \<le> 180"
  shows "calculateDistance 0 x 0 y = K_deg * \<bar>y - x\<bar>"
proof -
  define t where "t = (((y - x) * pi) / 180) / 2"
  have a: "haversine_a 0 x 0 y = sin t * sin t" unfolding t_def by (rule haversine_a_equator)
  have sq: "sqrt (sin t * sin t) = \<bar>sin t\<bar>" "sqrt (cos t * cos t) = \<bar>cos t\<bar>" by simp_all
  have abs_t: "\<bar>t\<bar> = \<bar>y - x\<bar> * pi / 360" unfolding t_def by (simp add: abs_mult)
  have "\<bar>y - x\<bar> * pi \<le> 180 * pi" using assms by (simp)
  then have "\<bar>y - x\<bar> * pi / 360 \<le> 180 * pi / 360" by (rule divide_right_mono) simp
  then have r: "0 \<le> \<bar>t\<bar>" "\<bar>t\<bar> \<le> pi / 2" unfolding abs_t by simp_all
  have "atan2 \<bar>sin t\<bar> \<bar>cos t\<bar> = atan2 \<bar>sin \<bar>t\<bar>\<bar> \<bar>cos \<bar>t\<bar>\<bar>"
    by (cases "0 \<le> t") (simp_all add: abs_if)
  also have "\<dots> = \<bar>t\<bar>" using r by (rule atan2_abs_sin_cos)
  finally have "calculateDistance 0 x 0 y = 6371 * (2 * \<bar>t\<bar>)"
    unfolding calculateDistance_a a one_minus_sin_sq sq by simp
  then show ?thesis by (simp add: abs_t K_deg_def)
qed

lemma atan2_abs_sin_cos_obtuse:
  assumes "pi / 2 \<le> t" "t \<le> pi"
  shows "atan2 \<bar>sin t\<bar> \<bar>cos t\<bar> = pi - t"
proof -
  have "atan2 \<bar>sin (pi - t)\<bar> \<bar>cos (pi - t)\<bar> = pi - t"
    using assms by (intro atan2_abs_sin_cos) auto
  then show ?thesis by (simp add: cos_diff sin_diff)
qed

lemma calculateDistance_equator_wrap:
  assumes "180 \<le> \<bar>y - x\<bar>" "\<bar>y - x\<bar> \<le> 360"
  shows "calculateDistance 0 x 0 y = K_deg * (360 - \<bar>y - x\<bar>)"
proof -
  define t where "t = (((y - x) * pi) / 180) / 2"
  have a: "haversine_a 0 x 0 y = sin t * sin t" unfolding t_def by (rule haversine_a_equator)
  have sq: "sqrt (sin t * sin t) = \<bar>sin t\<bar>" "sqrt (cos t * cos t) = \<bar>cos t\<bar>" by simp_all
  have abs_t: "\<bar>t\<bar> = \<bar>y - x\<bar> * pi / 360" unfolding t_def by (simp add: abs_mult)
  have "\<bar>y - x\<bar> * pi \<le> 360 * pi" using assms by (simp)
  then have "\<bar>y - x\<bar> * pi / 360 \<le> 360 * pi / 360" by (rule divide_right_mono) simp
  then have r1: "\<bar>t\<bar> \<le> pi" unfolding abs_t by simp
  have "180 * pi \<le> \<bar>y - x\<bar> * pi" using assms by (simp)
  then have "180 * pi / 360 \<le> \<bar>y - x\<bar> * pi / 360" by (rule divide_right_mono) simp
  then have r2: "pi / 2 \<le> \<bar>t\<bar>" unfolding abs_t by simp
  have "atan2 \<bar>sin t\<bar> \<bar>cos t\<bar> = atan2 \<bar>sin \<bar>t\<bar>\<bar> \<bar>cos \<bar>t\<bar>\<bar>"
    by (cases "0 \<le> t") (simp_all add: abs_if)
  also have "\<dots> = pi - \<bar>t\<bar>" using r2 r1 by (rule atan2_abs_sin_cos_obtuse)
  finally have "calculateDistance 0 x 0 y = 6371 * (2 * (pi - \<bar>t\<bar>))"
    unfolding calculateDistance_a a one_minus_sin_sq sq by simp
  then show ?thesis by (simp add: abs_t K_deg_def algebra_simps)
qed

lemma haversine_a_pole: "haversine_a 90 x 0 y = 1 / 2"
proof -
  have "sin (- (pi / 2) / 2) * sin (- (pi / 2) / 2) = (1 - cos (- (pi / 2))) / 2"
    by (rule sin_sq_half)
  then have "sin ((((0 - 90) * pi) / 180) / 2) * sin ((((0 - 90) * pi) / 180) / 2) = 1 / 2"
    by simp
  moreover have "cos ((90 * pi) / 180) = 0" by simp
  ultimately show ?thesis unfolding haversine_a_def by simp
qed

lemma calculateDistance_pole: "calculateDistance 90 x 0 y = K_deg * 90"
proof -
  have s: "0 < sqrt (1 / 2 :: real)" by simp
  have "atan2 (sqrt (1 / 2)) (sqrt (1 / 2)) = arctan 1"
    using s unfolding atan2_def by simp
  then have "atan2 (sqrt (1 / 2)) (sqrt (1 - 1 / 2)) = pi / 4" by (simp add: arctan_one)
  then show ?thesis unfolding calculateDistance_a haversine_a_pole by (simp add: K_deg_def)
qed

subsection \<open>The tour distance as a sum over the cycle\<close>

lemma fold_add_sum_list:
  "fold (\<lambda>i total. total + f i) xs (a::real) = a + sum_list (map f xs)"
  by (induction xs arbitrary: a) (simp_all add: add.assoc)

lemma calculateRouteDistance_cyclic: "calculateRouteDistance ss = cyclic_length ss"
proof (cases ss)
  case Nil
  then show ?thesis by (simp add: calculateRouteDistance_def cyclic_length_def)
next
  case (Cons x xs)
  show ?thesis
  proof (cases xs)
    case Nil
    with Cons show ?thesis
      by (simp add: calculateRouteDistance_def cyclic_length_def stopDistance_def calculateDistance_same)
  next
    case (Cons y ys)
    define n where "n = length xs"
    have len: "length ss = Suc n" "0 < n" using \<open>ss = x # xs\<close> Cons by (simp_all add: n_def)
    have rot: "rotate1 ss = xs @ [x]" using \<open>ss = x # xs\<close> by simp
    have z: "zip ss (rotate1 ss) = zip (butlast ss) xs @ [(last ss, x)]"
    proof -
      have "ss = butlast ss @ [last ss]" using \<open>ss = x # xs\<close> by simp
      then have "zip ss (xs @ [x]) = zip (butlast ss @ [last ss]) (xs @ [x])" by simp
      also have "\<dots> = zip (butlast ss) xs @ zip [last ss] [x]"
        by (rule zip_append) (simp add: len n_def)
      finally show ?thesis by (simp add: rot)
    qed
    have m: "map2 stopDistance (butlast ss) xs =
               map (\<lambda>i. stopDistance (ss ! i) (ss ! (i + 1))) [0..<n]"
    proof (rule nth_equalityI)
      show "length (map2 stopDistance (butlast ss) xs) =
              length (map (\<lambda>i. stopDistance (ss ! i) (ss ! (i + 1))) [0..<n])"
        by (simp add: len n_def)
    next
      fix i assume "i < length (map2 stopDistance (butlast ss) xs)"
      then have i: "i < n" by (simp add: len n_def)
      then have "butlast ss ! i = ss ! i" by (simp add: nth_butlast len)
      moreover have "xs ! i = ss ! (i + 1)" using \<open>ss = x # xs\<close> by simp
      ultimately show "map2 stopDistance (butlast ss) xs ! i =
                         map (\<lambda>i. stopDistance (ss ! i) (ss ! (i + 1))) [0..<n] ! i"
        using i by (simp add: len n_def)
    qed
    have l: "last ss = ss ! (length ss - 1)" using \<open>ss = x # xs\<close> by (simp add: last_conv_nth)
    have x0: "x = ss ! 0" using \<open>ss = x # xs\<close> by simp
    have "cyclic_length ss =
            sum_list (map (\<lambda>i. stopDistance (ss ! i) (ss ! (i + 1))) [0..<n]) +
            stopDistance (ss ! (length ss - 1)) (ss ! 0)"
      unfolding cyclic_length_def z using m l x0 by simp
    moreover have "calculateRouteDistance ss =
            sum_list (map (\<lambda>i. stopDistance (ss ! i) (ss ! (i + 1))) [0..<n]) +
            stopDistance (ss ! (length ss - 1)) (ss ! 0)"
      using len by (simp add: calculateRouteDistance_def fold_add_sum_list stopDistance_def Let_def)
    ultimately show ?thesis by simp
  qed
qed





lemma stopDistance_sym: "stopDistance s t = stopDistance t s"
  unfolding stopDistance_def by (rule calculateDistance_sym)



subsection \<open>Reversing a segment of a tour\<close>

lemma path_length_Cons:
  "path_length (x # y # ys) = stopDistance x y + path_length (y # ys)"
  by (simp add: path_length_def)

lemma path_length_single [simp]: "path_length [x] = 0" "path_length [] = 0"
  by (simp_all add: path_length_def)

lemma path_length_append:
  "xs \<noteq> [] \<Longrightarrow> ys \<noteq> [] \<Longrightarrow>
     path_length (xs @ ys) = path_length xs + stopDistance (last xs) (hd ys) + path_length ys"
proof (induction xs rule: list_nonempty_induct)
  case (single x)
  then show ?case by (cases ys) (simp_all add: path_length_Cons)
next
  case (cons x xs)
  then obtain z zs where xs: "xs = z # zs" by (cases xs) auto
  show ?case using cons by (simp add: xs path_length_Cons)
qed

lemma path_length_rev: "path_length (rev xs) = path_length xs"
proof (induction xs)
  case Nil
  then show ?case by simp
next
  case (Cons x xs)
  show ?case
  proof (cases xs)
    case Nil
    then show ?thesis by simp
  next
    case (Cons y ys)
    have "path_length (rev xs @ [x]) =
            path_length (rev xs) + stopDistance (last (rev xs)) (hd [x]) + path_length [x]"
      by (rule path_length_append) (simp_all add: Cons)
    also have "last (rev xs) = y" by (simp add: Cons)
    finally show ?thesis using Cons.IH
      by (simp add: Cons path_length_Cons stopDistance_sym[of y x])
  qed
qed

lemma cyclic_length_path:
  "ss \<noteq> [] \<Longrightarrow> cyclic_length ss = path_length ss + stopDistance (last ss) (hd ss)"
proof -
  assume ne: "ss \<noteq> []"
  then obtain x xs where ss: "ss = x # xs" by (cases ss) auto
  have rot: "rotate1 ss = xs @ [x]" by (simp add: ss)
  have "ss = butlast ss @ [last ss]" using ne by simp
  then have "zip ss (xs @ [x]) = zip (butlast ss @ [last ss]) (xs @ [x])" by simp
  also have "\<dots> = zip (butlast ss) xs @ zip [last ss] [x]"
    by (rule zip_append) (simp add: ss)
  finally have z: "zip ss (rotate1 ss) = zip (butlast ss) xs @ [(last ss, x)]"
    by (simp add: rot)
  have "zip ss xs = zip (butlast ss @ [last ss]) (xs @ [])" using ne by simp
  also have "\<dots> = zip (butlast ss) xs @ zip [last ss] []"
    by (rule zip_append) (simp add: ss)
  finally have t: "zip ss (tl ss) = zip (butlast ss) xs" by (simp add: ss)
  show ?thesis unfolding cyclic_length_def path_length_def z t by (simp add: ss)
qed

lemma cyclic_length_reverse_middle:
  assumes "pre \<noteq> []" "seg \<noteq> []"
  shows "cyclic_length (pre @ rev seg @ post) =
           cyclic_length (pre @ seg @ post)
           - (stopDistance (last pre) (hd seg) + stopDistance (last seg) (hd (post @ pre)))
           + (stopDistance (last pre) (last seg) + stopDistance (hd seg) (hd (post @ pre)))"
proof (cases "post = []")
  case True
  have "cyclic_length (pre @ rev seg) =
          path_length pre + stopDistance (last pre) (last seg) + path_length seg +
          stopDistance (hd seg) (hd pre)"
    using assms
    by (simp add: cyclic_length_path path_length_append path_length_rev hd_rev last_rev)
  moreover have "cyclic_length (pre @ seg) =
          path_length pre + stopDistance (last pre) (hd seg) + path_length seg +
          stopDistance (last seg) (hd pre)"
    using assms by (simp add: cyclic_length_path path_length_append)
  ultimately show ?thesis using True assms by simp
next
  case False
  have "cyclic_length (pre @ rev seg @ post) =
          path_length pre + stopDistance (last pre) (last seg) + path_length seg +
          stopDistance (hd seg) (hd post) + path_length post + stopDistance (last post) (hd pre)"
    using assms False
    by (simp add: cyclic_length_path path_length_append path_length_rev hd_rev last_rev)
  moreover have "cyclic_length (pre @ seg @ post) =
          path_length pre + stopDistance (last pre) (hd seg) + path_length seg +
          stopDistance (last seg) (hd post) + path_length post + stopDistance (last post) (hd pre)"
    using assms False by (simp add: cyclic_length_path path_length_append)
  ultimately show ?thesis using False assms by simp
qed

section \<open>Facts about the nearest-neighbour builder\<close>

subsection \<open>Indices of the stops array\<close>

lemma stop_at_valid: "valid_index ss i \<Longrightarrow> stop_at ss i = Inr (ss ! nat i)"
  by (simp add: stop_at_def valid_index_def)

lemma map_err_valid:
  "(\<And>x. x \<in> set xs \<Longrightarrow> f x = Inr (g x)) \<Longrightarrow> map_err f xs = Inr (map g xs)"
  by (induction xs) simp_all

lemma stops_of_valid:
  "(\<And>i. i \<in> set route \<Longrightarrow> valid_index ss i) \<Longrightarrow>
     stops_of ss route = Inr (map (\<lambda>i. ss ! nat i) route)"
  unfolding stops_of_def by (rule map_err_valid) (simp add: stop_at_valid)

lemma mset_stops_of_permutation:
  assumes "mset route = mset (map int [0..<length ss])"
  shows "mset (map (\<lambda>i. ss ! nat i) route) = mset ss"
proof -
  have "mset (map (\<lambda>i. ss ! nat i) route) = image_mset (\<lambda>i. ss ! nat i) (mset route)" by simp
  also have "\<dots> = image_mset (\<lambda>i. ss ! nat i) (mset (map int [0..<length ss]))"
    using assms by simp
  also have "\<dots> = mset (map (\<lambda>i. ss ! i) [0..<length ss])"
    by (simp add: multiset.map_comp comp_def)
  also have "\<dots> = mset ss" by (simp add: map_nth)
  finally show ?thesis .
qed

subsection \<open>The nearest-neighbour scan\<close>

lemma nn_scan_Cons_valid:
  assumes "valid_index ss cur" "valid_index ss idx"
  shows "nn_scan ss cur (idx # rest) (nearest, minDist) =
           (if js_lt (index_distance ss cur idx) minDist
            then nn_scan ss cur rest (idx, Num (index_distance ss cur idx))
            else nn_scan ss cur rest (nearest, minDist))"
  using assms by (simp add: stop_at_valid index_distance_def stopDistance_def Let_def)

lemma js_lt_trans: "js_lt x m \<Longrightarrow> \<not> js_lt y m \<Longrightarrow> x < y"
  by (cases m) auto

lemma nn_scan_first_minimum:
  assumes "valid_index ss cur" "\<forall>i\<in>set xs. valid_index ss i"
  shows "\<exists>n' m'. nn_scan ss cur xs (n0, m0) = Inr (n', m') \<and>
           ((n' = n0 \<and> m' = m0 \<and> (\<forall>j<length xs. \<not> js_lt (index_distance ss cur (xs ! j)) m0)) \<or>
            (\<exists>k<length xs. n' = xs ! k \<and> m' = Num (index_distance ss cur (xs ! k)) \<and>
               js_lt (index_distance ss cur (xs ! k)) m0 \<and>
               (\<forall>j<k. index_distance ss cur (xs ! k) < index_distance ss cur (xs ! j)) \<and>
               (\<forall>j<length xs. index_distance ss cur (xs ! k) \<le> index_distance ss cur (xs ! j))))"
  using assms(2)
proof (induction xs arbitrary: n0 m0)
  case Nil
  then show ?case by simp
next
  case (Cons idx rest)
  let ?d = "\<lambda>i. index_distance ss cur i"
  have vi: "valid_index ss idx" and vr: "\<forall>i\<in>set rest. valid_index ss i"
    using Cons.prems by simp_all
  note step = nn_scan_Cons_valid[OF assms(1) vi]
  show ?case
  proof (cases "js_lt (?d idx) m0")
    case True
    from Cons.IH[OF vr, of idx "Num (?d idx)"] obtain n' m' where
      r: "nn_scan ss cur rest (idx, Num (?d idx)) = Inr (n', m')" and
      c: "(n' = idx \<and> m' = Num (?d idx) \<and> (\<forall>j<length rest. \<not> js_lt (?d (rest ! j)) (Num (?d idx)))) \<or>
          (\<exists>k<length rest. n' = rest ! k \<and> m' = Num (?d (rest ! k)) \<and>
             js_lt (?d (rest ! k)) (Num (?d idx)) \<and>
             (\<forall>j<k. ?d (rest ! k) < ?d (rest ! j)) \<and>
             (\<forall>j<length rest. ?d (rest ! k) \<le> ?d (rest ! j)))"
      by blast
    have res: "nn_scan ss cur (idx # rest) (n0, m0) = Inr (n', m')"
      unfolding step using True r by simp
    from c show ?thesis
    proof
      assume a: "n' = idx \<and> m' = Num (?d idx) \<and> (\<forall>j<length rest. \<not> js_lt (?d (rest ! j)) (Num (?d idx)))"
      have "\<forall>j<length (idx # rest). ?d ((idx # rest) ! 0) \<le> ?d ((idx # rest) ! j)"
      proof (intro allI impI)
        fix j assume "j < length (idx # rest)"
        then show "?d ((idx # rest) ! 0) \<le> ?d ((idx # rest) ! j)"
          using a by (cases j) (auto simp: not_less)
      qed
      then have "0 < length (idx # rest) \<and> n' = (idx # rest) ! 0 \<and>
                 m' = Num (?d ((idx # rest) ! 0)) \<and> js_lt (?d ((idx # rest) ! 0)) m0 \<and>
                 (\<forall>j<0. ?d ((idx # rest) ! 0) < ?d ((idx # rest) ! j)) \<and>
                 (\<forall>j<length (idx # rest). ?d ((idx # rest) ! 0) \<le> ?d ((idx # rest) ! j))"
        using a True by simp
      then show ?thesis using res by blast
    next
      assume "\<exists>k<length rest. n' = rest ! k \<and> m' = Num (?d (rest ! k)) \<and>
             js_lt (?d (rest ! k)) (Num (?d idx)) \<and>
             (\<forall>j<k. ?d (rest ! k) < ?d (rest ! j)) \<and>
             (\<forall>j<length rest. ?d (rest ! k) \<le> ?d (rest ! j))"
      then obtain k where k: "k < length rest" "n' = rest ! k" "m' = Num (?d (rest ! k))"
        "?d (rest ! k) < ?d idx" "\<forall>j<k. ?d (rest ! k) < ?d (rest ! j)"
        "\<forall>j<length rest. ?d (rest ! k) \<le> ?d (rest ! j)"
        by auto
      have lt0: "js_lt (?d (rest ! k)) m0"
        using True k(4) by (cases m0) auto
      have e: "\<forall>j<Suc k. ?d ((idx # rest) ! Suc k) < ?d ((idx # rest) ! j)"
      proof (intro allI impI)
        fix j assume "j < Suc k"
        then show "?d ((idx # rest) ! Suc k) < ?d ((idx # rest) ! j)"
          using k(4,5) by (cases j) auto
      qed
      have a: "\<forall>j<length (idx # rest). ?d ((idx # rest) ! Suc k) \<le> ?d ((idx # rest) ! j)"
      proof (intro allI impI)
        fix j assume "j < length (idx # rest)"
        then show "?d ((idx # rest) ! Suc k) \<le> ?d ((idx # rest) ! j)"
          using k(4,6) by (cases j) auto
      qed
      have "Suc k < length (idx # rest) \<and> n' = (idx # rest) ! Suc k \<and>
            m' = Num (?d ((idx # rest) ! Suc k)) \<and> js_lt (?d ((idx # rest) ! Suc k)) m0"
        using k lt0 by simp
      with e a res show ?thesis by blast
    qed
  next
    case False
    from Cons.IH[OF vr, of n0 m0] obtain n' m' where
      r: "nn_scan ss cur rest (n0, m0) = Inr (n', m')" and
      c: "(n' = n0 \<and> m' = m0 \<and> (\<forall>j<length rest. \<not> js_lt (?d (rest ! j)) m0)) \<or>
          (\<exists>k<length rest. n' = rest ! k \<and> m' = Num (?d (rest ! k)) \<and>
             js_lt (?d (rest ! k)) m0 \<and>
             (\<forall>j<k. ?d (rest ! k) < ?d (rest ! j)) \<and>
             (\<forall>j<length rest. ?d (rest ! k) \<le> ?d (rest ! j)))"
      by blast
    have res: "nn_scan ss cur (idx # rest) (n0, m0) = Inr (n', m')"
      unfolding step using False r by simp
    from c show ?thesis
    proof
      assume a: "n' = n0 \<and> m' = m0 \<and> (\<forall>j<length rest. \<not> js_lt (?d (rest ! j)) m0)"
      have "\<forall>j<length (idx # rest). \<not> js_lt (?d ((idx # rest) ! j)) m0"
      proof (intro allI impI)
        fix j assume "j < length (idx # rest)"
        then show "\<not> js_lt (?d ((idx # rest) ! j)) m0"
          using a False by (cases j) auto
      qed
      with a res show ?thesis by blast
    next
      assume "\<exists>k<length rest. n' = rest ! k \<and> m' = Num (?d (rest ! k)) \<and>
             js_lt (?d (rest ! k)) m0 \<and>
             (\<forall>j<k. ?d (rest ! k) < ?d (rest ! j)) \<and>
             (\<forall>j<length rest. ?d (rest ! k) \<le> ?d (rest ! j))"
      then obtain k where k: "k < length rest" "n' = rest ! k" "m' = Num (?d (rest ! k))"
        "js_lt (?d (rest ! k)) m0" "\<forall>j<k. ?d (rest ! k) < ?d (rest ! j)"
        "\<forall>j<length rest. ?d (rest ! k) \<le> ?d (rest ! j)"
        by auto
      have lt: "?d (rest ! k) < ?d idx" using k(4) False by (rule js_lt_trans)
      have e: "\<forall>j<Suc k. ?d ((idx # rest) ! Suc k) < ?d ((idx # rest) ! j)"
      proof (intro allI impI)
        fix j assume "j < Suc k"
        then show "?d ((idx # rest) ! Suc k) < ?d ((idx # rest) ! j)"
          using lt k(5) by (cases j) auto
      qed
      have a: "\<forall>j<length (idx # rest). ?d ((idx # rest) ! Suc k) \<le> ?d ((idx # rest) ! j)"
      proof (intro allI impI)
        fix j assume "j < length (idx # rest)"
        then show "?d ((idx # rest) ! Suc k) \<le> ?d ((idx # rest) ! j)"
          using lt k(6) by (cases j) auto
      qed
      have "Suc k < length (idx # rest) \<and> n' = (idx # rest) ! Suc k \<and>
            m' = Num (?d ((idx # rest) ! Suc k)) \<and> js_lt (?d ((idx # rest) ! Suc k)) m0"
        using k by simp
      with e a res show ?thesis by blast
    qed
  qed
qed


lemma nn_scan_picks_first_minimum:
  assumes "valid_index ss cur" "\<forall>i\<in>set xs. valid_index ss i" "xs \<noteq> []"
  shows "\<exists>k<length xs.
           nn_scan ss cur xs (- 1, PosInf) = Inr (xs ! k, Num (index_distance ss cur (xs ! k))) \<and>
           (\<forall>j<length xs. index_distance ss cur (xs ! k) \<le> index_distance ss cur (xs ! j)) \<and>
           (\<forall>j<k. index_distance ss cur (xs ! k) < index_distance ss cur (xs ! j))"
proof -
  from nn_scan_first_minimum[OF assms(1,2), of "- 1" PosInf] obtain n' m' where
    r: "nn_scan ss cur xs (- 1, PosInf) = Inr (n', m')" and
    c: "(n' = - 1 \<and> m' = PosInf \<and> (\<forall>j<length xs. \<not> js_lt (index_distance ss cur (xs ! j)) PosInf)) \<or>
        (\<exists>k<length xs. n' = xs ! k \<and> m' = Num (index_distance ss cur (xs ! k)) \<and>
           js_lt (index_distance ss cur (xs ! k)) PosInf \<and>
           (\<forall>j<k. index_distance ss cur (xs ! k) < index_distance ss cur (xs ! j)) \<and>
           (\<forall>j<length xs. index_distance ss cur (xs ! k) \<le> index_distance ss cur (xs ! j)))"
    by blast
  have "0 < length xs" using assms(3) by simp
  then have "\<not> (\<forall>j<length xs. \<not> js_lt (index_distance ss cur (xs ! j)) PosInf)" by auto
  with c obtain k where "k < length xs" "n' = xs ! k" "m' = Num (index_distance ss cur (xs ! k))"
    "\<forall>j<k. index_distance ss cur (xs ! k) < index_distance ss cur (xs ! j)"
    "\<forall>j<length xs. index_distance ss cur (xs ! k) \<le> index_distance ss cur (xs ! j)"
    by blast
  with r show ?thesis by blast
qed

subsection \<open>The nearest-neighbour loop\<close>

lemma nn_loop_permutation:
  assumes "route \<noteq> []" "\<forall>i\<in>set route. valid_index ss i"
    "\<forall>i\<in>set unvisited. valid_index ss i" "distinct unvisited"
  shows "\<exists>route'. nn_loop ss route unvisited = Inr route' \<and>
           mset route' = mset route + mset unvisited"
  using assms
proof (induction "length unvisited" arbitrary: route unvisited rule: less_induct)
  case less
  show ?case
  proof (cases "unvisited = []")
    case True
    then show ?thesis by (simp add: nn_loop.simps)
  next
    case False
    have vl: "valid_index ss (last route)" using less.prems(1,2) by simp
    from nn_scan_picks_first_minimum[OF vl less.prems(3) False] obtain k where
      k: "k < length unvisited" and
      r: "nn_scan ss (last route) unvisited (- 1, PosInf) =
            Inr (unvisited ! k, Num (index_distance ss (last route) (unvisited ! k)))"
      by blast
    define nearest where "nearest = unvisited ! k"
    have mem: "nearest \<in> set unvisited" using k by (simp add: nearest_def)
    have step: "nn_loop ss route unvisited =
                  nn_loop ss (route @ [nearest]) (removeAll nearest unvisited)"
      using False less.prems(1) r by (subst nn_loop.simps) (simp add: nearest_def)
    have shorter: "length (removeAll nearest unvisited) < length unvisited"
      using mem by (rule length_removeAll_less)
    have v1: "\<forall>i\<in>set (route @ [nearest]). valid_index ss i"
      using less.prems(2,3) mem by auto
    have v2: "\<forall>i\<in>set (removeAll nearest unvisited). valid_index ss i"
      using less.prems(3) by auto
    have d2: "distinct (removeAll nearest unvisited)"
      using less.prems(4) by (simp add: distinct_removeAll)
    from less.hyps[OF shorter _ v1 v2 d2] obtain route' where
      a: "nn_loop ss (route @ [nearest]) (removeAll nearest unvisited) = Inr route'" and
      b: "mset route' = mset (route @ [nearest]) + mset (removeAll nearest unvisited)"
      by auto
    have "removeAll nearest unvisited = remove1 nearest unvisited"
      using less.prems(4) by (simp add: distinct_remove1_removeAll)
    then have "mset (removeAll nearest unvisited) = mset unvisited - {#nearest#}" by simp
    then have "mset (route @ [nearest]) + mset (removeAll nearest unvisited) =
               mset route + mset unvisited"
      using mem by simp
    with a b step show ?thesis by simp
  qed
qed

lemma nearestNeighbor_returns:
  "\<exists>res. nearestNeighbor ss = Inr res \<and> mset (stops res) = mset ss \<and>
         distance res = calculateRouteDistance (stops res) \<and> improvement res = Num 0"
proof (cases "length ss < 2")
  case True
  then have "calculateRouteDistance ss = 0" by (simp add: calculateRouteDistance_def)
  with True show ?thesis by (simp add: nearestNeighbor_def)
next
  case False
  define unvisited where "unvisited = removeAll 0 (map int [0..<length ss])"
  have v0: "\<forall>i\<in>set [0::int]. valid_index ss i" using False by (cases ss) (simp_all add: valid_index_def)
  have vu: "\<forall>i\<in>set unvisited. valid_index ss i"
    by (auto simp: unvisited_def valid_index_def)
  have du: "distinct unvisited"
    by (simp add: unvisited_def distinct_removeAll distinct_map)
  from nn_loop_permutation[OF _ v0 vu du] obtain route' where
    a: "nn_loop ss [0] unvisited = Inr route'" and
    b: "mset route' = mset [0::int] + mset unvisited"
    by auto
  have d: "distinct (map int [0..<length ss])" by (simp add: distinct_map)
  have "0 < length ss" using False by linarith
  then have "int 0 \<in> int ` set [0..<length ss]" by (intro imageI) simp
  then have z: "(0::int) \<in> set (map int [0..<length ss])" by simp
  have "unvisited = remove1 0 (map int [0..<length ss])"
    unfolding unvisited_def using d by (simp add: distinct_remove1_removeAll)
  then have "mset unvisited = mset (map int [0..<length ss]) - {#0#}" by simp
  then have p: "mset route' = mset (map int [0..<length ss])" using b z by simp
  then have "set route' = set (map int [0..<length ss])" by (rule mset_eq_setD)
  then have vr: "\<And>i. i \<in> set route' \<Longrightarrow> valid_index ss i" by (auto simp: valid_index_def)
  have s: "stops_of ss route' = Inr (map (\<lambda>i. ss ! nat i) route')"
    using vr by (rule stops_of_valid)
  have m: "mset (map (\<lambda>i. ss ! nat i) route') = mset ss"
    using p by (rule mset_stops_of_permutation)
  show ?thesis
    using False a s m by (simp add: nearestNeighbor_def unvisited_def[symmetric] Let_def)
qed

section \<open>Facts about the 2-opt improver\<close>

subsection \<open>The 2-opt loops keep the route a permutation of the indices\<close>

lemma index_permutation_valid:
  "index_permutation ss route \<Longrightarrow> i \<in> set route \<Longrightarrow> valid_index ss i"
proof -
  assume p: "index_permutation ss route" and i: "i \<in> set route"
  from p have "set route = set (map int [0..<length ss])"
    unfolding index_permutation_def by (rule mset_eq_setD)
  with i show ?thesis by (auto simp: valid_index_def)
qed

lemma index_permutation_length: "index_permutation ss route \<Longrightarrow> length route = length ss"
proof -
  assume "index_permutation ss route"
  then have "size (mset route) = size (mset (map int [0..<length ss]))"
    by (simp add: index_permutation_def)
  then show ?thesis by simp
qed

lemma index_permutation_identity: "index_permutation ss (map int [0..<length ss])"
  by (simp add: index_permutation_def)

lemma index_permutation_stops:
  assumes "index_permutation ss route"
  shows "stops_of ss route = Inr (map (\<lambda>i. ss ! nat i) route) \<and>
         mset (map (\<lambda>i. ss ! nat i) route) = mset ss"
proof
  show "stops_of ss route = Inr (map (\<lambda>i. ss ! nat i) route)"
    by (rule stops_of_valid) (rule index_permutation_valid[OF assms])
  show "mset (map (\<lambda>i. ss ! nat i) route) = mset ss"
    using assms unfolding index_permutation_def by (rule mset_stops_of_permutation)
qed

lemma mset_reverse_segment:
  "right < length newRoute \<Longrightarrow> mset (reverse_segment newRoute left right) = mset newRoute"
proof (induction newRoute left right rule: reverse_segment.induct)
  case (1 newRoute left right)
  show ?case
  proof (cases "left < right")
    case True
    let ?swapped = "newRoute[left := newRoute ! right, right := newRoute ! left]"
    have l: "left < length newRoute" using True "1.prems" by simp
    have "mset ?swapped = mset newRoute" using "1.prems" l by (simp add: mset_swap)
    moreover have "right - 1 < length ?swapped" using "1.prems" by simp
    ultimately show ?thesis
      using "1.IH"[OF True] by (simp add: reverse_segment_step[OF True])
  next
    case False
    then show ?thesis by (simp add: reverse_segment_stop)
  qed
qed

lemma twoOpt_exchange_permutation:
  assumes "index_permutation ss route" "i + 1 < length route" "j < length route"
  shows "\<exists>route' improved'.
           twoOpt_exchange ss i j (route, improved) = Inr (route', improved') \<and>
           index_permutation ss route'"
proof -
  have len: "0 < length route" using assms(3) by linarith
  have v: "\<And>k. k < length route \<Longrightarrow> stop_at ss (route ! k) = Inr (ss ! nat (route ! k))"
    by (rule stop_at_valid, rule index_permutation_valid[OF assms(1)]) simp
  have a: "stop_at ss (route ! i) = Inr (ss ! nat (route ! i))" using assms(2) by (intro v) simp
  have b: "stop_at ss (route ! (i + 1)) = Inr (ss ! nat (route ! (i + 1)))"
    using assms(2) by (intro v)
  have c: "stop_at ss (route ! j) = Inr (ss ! nat (route ! j))" using assms(3) by (intro v)
  have d: "stop_at ss (route ! ((j + 1) mod length route)) =
             Inr (ss ! nat (route ! ((j + 1) mod length route)))"
    using len by (intro v) simp
  have r: "index_permutation ss (reverse_segment route (i + 1) j)"
    using assms(1,3) by (simp add: index_permutation_def mset_reverse_segment)
  show ?thesis
    unfolding twoOpt_exchange_def using a b c d r assms(1)
    by (auto simp: Let_def)
qed

subsection \<open>An accepted exchange shortens the tour\<close>

lemma reverse_segment_nth:
  "right < length xs \<Longrightarrow> k < length xs \<Longrightarrow>
     reverse_segment xs left right ! k =
       (if left \<le> k \<and> k \<le> right then xs ! (left + right - k) else xs ! k)"
proof (induction xs left right rule: reverse_segment.induct)
  case (1 xs left right)
  show ?case
  proof (cases "left < right")
    case True
    let ?sw = "xs[left := xs ! right, right := xs ! left]"
    have IH: "reverse_segment ?sw (left + 1) (right - 1) ! k =
                (if left + 1 \<le> k \<and> k \<le> right - 1 then ?sw ! (left + 1 + (right - 1) - k)
                 else ?sw ! k)"
      using "1.IH"[OF True] "1.prems" by simp
    show ?thesis
      unfolding reverse_segment_step[OF True] IH using True "1.prems"
      by (auto simp: nth_list_update)
  next
    case False
    have "left + right - k = k" if "left \<le> k" "k \<le> right" using that False by simp
    then show ?thesis by (simp add: reverse_segment_stop[OF False])
  qed
qed

lemma reverse_segment_list:
  assumes "right < length xs" "left \<le> right"
  shows "reverse_segment xs left right =
           take left xs @ rev (take (Suc right - left) (drop left xs)) @ drop (Suc right) xs"
proof (rule nth_equalityI)
  show "length (reverse_segment xs left right) =
          length (take left xs @ rev (take (Suc right - left) (drop left xs)) @ drop (Suc right) xs)"
    using assms by (simp add: length_reverse_segment)
next
  fix k assume "k < length (reverse_segment xs left right)"
  then have k: "k < length xs" by (simp add: length_reverse_segment)
  show "reverse_segment xs left right ! k =
          (take left xs @ rev (take (Suc right - left) (drop left xs)) @ drop (Suc right) xs) ! k"
    using assms k
    by (auto simp: reverse_segment_nth nth_append rev_nth min_def intro!: arg_cong[of _ _ "nth xs"])
qed

lemma twoOpt_exchange_shorter:
  assumes "index_permutation ss route" "i + 1 \<le> j" "j < length route"
    and "twoOpt_exchange ss i j (route, improved) = Inr (route', improved')"
  shows "route_length ss route' \<le> route_length ss route"
proof -
  let ?f = "\<lambda>i. ss ! nat i"
  let ?n = "length route"
  let ?a = "route ! i" and ?b = "route ! (i + 1)" and ?c = "route ! j"
    and ?d = "route ! ((j + 1) mod ?n)"
  have len: "0 < ?n" "i < ?n" "i + 1 < ?n" using assms(2,3) by linarith+
  have v: "\<And>k. k < ?n \<Longrightarrow> stop_at ss (route ! k) = Inr (?f (route ! k))"
    by (rule stop_at_valid, rule index_permutation_valid[OF assms(1)]) simp
  have a: "stop_at ss ?a = Inr (?f ?a)" using len by (intro v)
  have b: "stop_at ss ?b = Inr (?f ?b)" using len by (intro v)
  have c: "stop_at ss ?c = Inr (?f ?c)" using assms(3) by (intro v)
  have d: "stop_at ss ?d = Inr (?f ?d)" using len by (intro v) simp
  let ?cur = "stopDistance (?f ?a) (?f ?b) + stopDistance (?f ?c) (?f ?d)"
  let ?new = "stopDistance (?f ?a) (?f ?c) + stopDistance (?f ?b) (?f ?d)"
  have e: "(route', improved') =
             (if ?new < ?cur then (reverse_segment route (i + 1) j, True) else (route, improved))"
    using assms(4) a b c d unfolding twoOpt_exchange_def
    by (simp add: Let_def stopDistance_def split: if_splits)
  show ?thesis
  proof (cases "?new < ?cur")
    case False
    with e show ?thesis by simp
  next
    case True
    with e have r: "route' = reverse_segment route (i + 1) j" by simp
    define pre where "pre = take (i + 1) route"
    define seg where "seg = take (Suc j - (i + 1)) (drop (i + 1) route)"
    define post where "post = drop (Suc j) route"
    have new: "route' = pre @ rev seg @ post"
      unfolding r pre_def seg_def post_def using assms(2,3) by (intro reverse_segment_list)
    have old: "route = pre @ seg @ post"
    proof -
      have "Suc j - (i + 1) + (i + 1) = Suc j" using assms(2) by simp
      then have "drop (Suc j - (i + 1)) (drop (i + 1) route) = post"
        by (simp only: drop_drop post_def)
      then have "seg @ post = drop (i + 1) route"
        unfolding seg_def by (metis append_take_drop_id)
      then show ?thesis unfolding pre_def by (metis append_take_drop_id)
    qed
    have pne: "pre \<noteq> []" using len by (auto simp: pre_def)
    have lseg: "length seg = j - i" using assms(2,3) by (simp add: seg_def)
    then have sne: "seg \<noteq> []" using assms(2) by auto
    have lp: "last pre = ?a"
      using len by (simp add: pre_def last_conv_nth min_def)
    have hs: "hd seg = ?b"
      using assms(2,3) by (simp add: seg_def hd_conv_nth)
    have ls: "last seg = ?c"
    proof -
      have "last seg = seg ! (j - i - 1)" using sne lseg by (simp add: last_conv_nth)
      also have "\<dots> = drop (i + 1) route ! (j - i - 1)"
        using assms(2) by (simp add: seg_def)
      also have "\<dots> = route ! (i + 1 + (j - i - 1))"
        using len by (intro nth_drop) simp
      also have "i + 1 + (j - i - 1) = j" using assms(2) by simp
      finally show ?thesis .
    qed
    have hp: "hd (post @ pre) = ?d"
    proof (cases "Suc j < ?n")
      case True
      then have "post \<noteq> []" by (simp add: post_def)
      then have "hd (post @ pre) = hd post" by simp
      also have "\<dots> = route ! Suc j" using True by (simp add: post_def hd_drop_conv_nth)
      finally show ?thesis using True by simp
    next
      case False
      then have j: "Suc j = ?n" using assms(3) by simp
      then have "post = []" by (simp add: post_def)
      then have "hd (post @ pre) = hd pre" by simp
      also have "\<dots> = route ! 0" using len by (simp add: pre_def hd_conv_nth)
      finally show ?thesis using j by simp
    qed
    have mo: "map ?f route = map ?f pre @ map ?f seg @ map ?f post"
      using arg_cong[OF old, of "map ?f"] by simp
    have mp: "map ?f pre \<noteq> []" "map ?f seg \<noteq> []" using pne sne by simp_all
    have "route_length ss route' =
            cyclic_length (map ?f pre @ rev (map ?f seg) @ map ?f post)"
      by (simp add: route_length_def new rev_map)
    also have "\<dots> = cyclic_length (map ?f pre @ map ?f seg @ map ?f post)
           - (stopDistance (last (map ?f pre)) (hd (map ?f seg)) +
              stopDistance (last (map ?f seg)) (hd (map ?f post @ map ?f pre)))
           + (stopDistance (last (map ?f pre)) (last (map ?f seg)) +
              stopDistance (hd (map ?f seg)) (hd (map ?f post @ map ?f pre)))"
      by (rule cyclic_length_reverse_middle[OF mp])
    also have "cyclic_length (map ?f pre @ map ?f seg @ map ?f post) = route_length ss route"
      by (simp only: route_length_def mo)
    also have "last (map ?f pre) = ?f ?a" using pne lp by (simp add: last_map)
    also have "hd (map ?f seg) = ?f ?b" using sne hs by (simp add: hd_map)
    also have "last (map ?f seg) = ?f ?c" using sne ls by (simp add: last_map)
    also have "hd (map ?f post @ map ?f pre) = ?f ?d"
    proof -
      have ne: "post @ pre \<noteq> []" using pne by simp
      have "map ?f post @ map ?f pre = map ?f (post @ pre)" by simp
      also have "hd \<dots> = ?f (hd (post @ pre))" using ne by (rule hd_map)
      finally show ?thesis by (simp only: hp)
    qed
    finally have "route_length ss route' = route_length ss route - ?cur + ?new" .
    with True show ?thesis by simp
  qed
qed

subsection \<open>The loops\<close>

lemma twoOpt_j_permutation:
  assumes "index_permutation ss route" "i + 1 < length route" "i + 1 \<le> j"
  shows "\<exists>route' improved'.
           twoOpt_j ss i j (route, improved) = Inr (route', improved') \<and>
           index_permutation ss route' \<and> route_length ss route' \<le> route_length ss route"
  using assms
proof (induction "length route - j" arbitrary: j route improved rule: less_induct)
  case less
  show ?case
  proof (cases "j < length route")
    case False
    then show ?thesis using less.prems(1) by (simp add: twoOpt_j.simps)
  next
    case True
    from twoOpt_exchange_permutation[OF less.prems(1,2) True, of improved]
    obtain r1 i1 where
      e: "twoOpt_exchange ss i j (route, improved) = Inr (r1, i1)" and
      p: "index_permutation ss r1"
      by blast
    have s: "route_length ss r1 \<le> route_length ss route"
      using less.prems(1,3) True e by (rule twoOpt_exchange_shorter)
    have l: "length r1 = length route"
      using p less.prems(1) by (simp add: index_permutation_length)
    have lt: "length r1 - (j + 1) < length route - j" using True l by simp
    have i1': "i + 1 < length r1" using less.prems(2) l by simp
    have j1: "i + 1 \<le> j + 1" using less.prems(3) by simp
    from less.hyps[OF lt p i1' j1, of i1] obtain route' improved' where
      "twoOpt_j ss i (j + 1) (r1, i1) = Inr (route', improved')" "index_permutation ss route'"
      "route_length ss route' \<le> route_length ss r1"
      by blast
    then show ?thesis using True e s by (simp add: twoOpt_j.simps[of ss i j])
  qed
qed

lemma twoOpt_i_permutation:
  assumes "index_permutation ss route"
  shows "\<exists>route' improved'.
           twoOpt_i ss i (route, improved) = Inr (route', improved') \<and>
           index_permutation ss route' \<and> route_length ss route' \<le> route_length ss route"
  using assms
proof (induction "length route - i" arbitrary: i route improved rule: less_induct)
  case less
  show ?case
  proof (cases "int i < int (length route) - 2")
    case False
    then show ?thesis using less.prems by (simp add: twoOpt_i.simps)
  next
    case True
    then have i1: "i + 1 < length route" by simp
    have i2: "i + 1 \<le> i + 2" by simp
    from twoOpt_j_permutation[OF less.prems i1 i2, of improved]
    obtain r1 i1 where
      e: "twoOpt_j ss i (i + 2) (route, improved) = Inr (r1, i1)" and
      p: "index_permutation ss r1" and
      s: "route_length ss r1 \<le> route_length ss route"
      by blast
    have l: "length r1 = length route"
      using p less.prems by (simp add: index_permutation_length)
    have lt: "length r1 - (i + 1) < length route - i" using True l by simp
    from less.hyps[OF lt p, of i1] obtain route' improved' where
      "twoOpt_i ss (i + 1) (r1, i1) = Inr (route', improved')" "index_permutation ss route'"
      "route_length ss route' \<le> route_length ss r1"
      by blast
    then show ?thesis using True e s by (simp add: twoOpt_i.simps[of ss i])
  qed
qed

lemma twoOpt_while_permutation:
  assumes "index_permutation ss route"
  shows "\<exists>route'. twoOpt_while ss maxIterations (route, improved, iteration) = Inr route' \<and>
           index_permutation ss route' \<and> route_length ss route' \<le> route_length ss route"
  using assms
proof (induction "maxIterations - iteration" arbitrary: iteration route improved rule: less_induct)
  case less
  show ?case
  proof (cases "improved \<and> iteration < maxIterations")
    case False
    then show ?thesis using less.prems by (auto simp: twoOpt_while.simps)
  next
    case True
    from twoOpt_i_permutation[OF less.prems, of 0 False]
    obtain r1 i1 where
      e: "twoOpt_i ss 0 (route, False) = Inr (r1, i1)" and
      p: "index_permutation ss r1" and
      s: "route_length ss r1 \<le> route_length ss route"
      by blast
    from True have "iteration < maxIterations" by blast
    then have lt: "maxIterations - (iteration + 1) < maxIterations - iteration" by linarith
    from less.hyps[OF lt p, of i1] obtain route' where
      "twoOpt_while ss maxIterations (r1, i1, iteration + 1) = Inr route'"
      "index_permutation ss route'" "route_length ss route' \<le> route_length ss r1"
      by blast
    moreover have "twoOpt_while ss maxIterations (route, improved, iteration) =
                     twoOpt_while ss maxIterations (r1, i1, iteration + 1)"
      by (subst twoOpt_while.simps) (use True e in simp)
    ultimately show ?thesis using s by simp
  qed
qed

lemma twoOpt_small: "length ss < 4 \<Longrightarrow> twoOpt ss maxIterations = nearestNeighbor ss"
  by (simp add: twoOpt_def)

lemma twoOpt_returns:
  "\<exists>res nn. twoOpt ss maxIterations = Inr res \<and> nearestNeighbor ss = Inr nn \<and>
     mset (stops res) = mset ss \<and>
     distance res = calculateRouteDistance (stops res) \<and>
     improvement res =
       (if length ss < 4 then Num 0
        else js_mul (js_div (distance nn - distance res) (distance nn)) 100)"
proof -
  from nearestNeighbor_returns[of ss] obtain nn where
    nn: "nearestNeighbor ss = Inr nn" "mset (stops nn) = mset ss"
        "distance nn = calculateRouteDistance (stops nn)" "improvement nn = Num 0"
    by blast
  show ?thesis
  proof (cases "length ss < 4")
    case True
    then show ?thesis using nn by (simp add: twoOpt_small)
  next
    case False
    have "size (mset (stops nn)) = size (mset ss)" using nn(2) by simp
    then have l: "length (stops nn) = length ss" by simp
    from twoOpt_while_permutation[OF index_permutation_identity, of ss maxIterations True 0]
    obtain route' where
      w: "twoOpt_while ss maxIterations (map int [0..<length ss], True, 0) = Inr route'" and
      p: "index_permutation ss route'"
      by blast
    from index_permutation_stops[OF p] have
      s: "stops_of ss route' = Inr (map (\<lambda>i. ss ! nat i) route')" and
      m: "mset (map (\<lambda>i. ss ! nat i) route') = mset ss"
      by simp_all
    show ?thesis
      using False nn l w s m by (simp add: twoOpt_def Let_def)
  qed
qed

text \<open>What 2-opt improves is the input order: its result is never longer than that.\<close>

lemma twoOpt_not_longer_than_input:
  assumes "\<not> length ss < 4"
  shows "\<exists>res. twoOpt ss maxIterations = Inr res \<and> distance res \<le> calculateRouteDistance ss"
proof -
  from nearestNeighbor_returns[of ss] obtain nn where
    nn: "nearestNeighbor ss = Inr nn" "mset (stops nn) = mset ss"
    by blast
  have "size (mset (stops nn)) = size (mset ss)" using nn(2) by simp
  then have l: "length (stops nn) = length ss" by simp
  from twoOpt_while_permutation[OF index_permutation_identity, of ss maxIterations True 0]
  obtain route' where
    w: "twoOpt_while ss maxIterations (map int [0..<length ss], True, 0) = Inr route'" and
    p: "index_permutation ss route'" and
    s: "route_length ss route' \<le> route_length ss (map int [0..<length ss])"
    by blast
  from index_permutation_stops[OF p] have
    st: "stops_of ss route' = Inr (map (\<lambda>i. ss ! nat i) route')"
    by simp
  have "map (\<lambda>i. ss ! nat i) (map int [0..<length ss]) = map (\<lambda>i. ss ! i) [0..<length ss]"
    by simp
  also have "\<dots> = ss" by (rule map_nth)
  finally have "route_length ss (map int [0..<length ss]) = calculateRouteDistance ss"
    by (simp only: route_length_def calculateRouteDistance_cyclic)
  with s have "calculateRouteDistance (map (\<lambda>i. ss ! nat i) route') \<le> calculateRouteDistance ss"
    by (simp add: route_length_def calculateRouteDistance_cyclic)
  then show ?thesis
    using assms nn(1) l w st by (simp add: twoOpt_def Let_def)
qed
section \<open>Facts about the genetic search\<close>

subsection \<open>Random indices and array writes in range\<close>

lemma Rep_unit_real_bounds: "0 \<le> Rep_unit_real u \<and> Rep_unit_real u < 1"
  using Rep_unit_real[of u] by simp

lemma random_below_less:
  assumes "0 < m"
  shows "random_below r c m < m"
proof -
  have u: "0 \<le> Rep_unit_real (r c)" "Rep_unit_real (r c) < 1"
    using Rep_unit_real_bounds[of "r c"] by simp_all
  have m: "0 < real m" using assms by simp
  have "Rep_unit_real (r c) * real m < 1 * real m"
    using u(2) m by (rule mult_strict_right_mono)
  then have "Rep_unit_real (r c) * real m < of_int (int m)" by simp
  then have lt: "\<lfloor>Rep_unit_real (r c) * real m\<rfloor> < int m" by (simp only: floor_less_iff)
  have "0 \<le> Rep_unit_real (r c) * real m" using u(1) by simp
  then have ge: "0 \<le> \<lfloor>Rep_unit_real (r c) * real m\<rfloor>" by simp
  from lt ge show ?thesis unfolding random_below_def by linarith
qed

lemma js_nth_in_range: "i < length xs \<Longrightarrow> js_nth xs i = xs ! i"
  by (simp add: js_nth_def)

lemma js_set_in_range: "i < length xs \<Longrightarrow> js_set xs i v = xs[i := v]"
  by (simp add: js_set_def)

lemma js_swap_in_range:
  "i < length xs \<Longrightarrow> j < length xs \<Longrightarrow> js_swap xs i j = xs[i := xs ! j, j := xs ! i]"
  by (simp add: js_swap_def js_nth_in_range js_set_in_range)

lemma mset_js_swap: "i < length xs \<Longrightarrow> j < length xs \<Longrightarrow> mset (js_swap xs i j) = mset xs"
  by (simp add: js_swap_in_range mset_swap)

subsection \<open>Chromosomes\<close>

lemma chromosome_identity: "chromosome n (identity_route n)"
  by (simp add: chromosome_def)

lemma length_identity_route: "length (identity_route n) = n"
  by (simp add: identity_route_def)

lemma distinct_identity_route: "distinct (identity_route n)"
  by (simp add: identity_route_def distinct_map inj_on_def)

lemma set_identity_route: "set (identity_route n) = (\<lambda>i. Some (int i)) ` {..<n}"
  by (auto simp: identity_route_def)

lemma chromosome_length: "chromosome n route \<Longrightarrow> length route = n"
proof -
  assume "chromosome n route"
  then have "size (mset route) = size (mset (identity_route n))" by (simp add: chromosome_def)
  then show ?thesis by (simp add: length_identity_route)
qed

lemma chromosome_distinct: "chromosome n route \<Longrightarrow> distinct route"
proof -
  assume "chromosome n route"
  then have "mset route = mset (identity_route n)" by (simp add: chromosome_def)
  then show ?thesis using distinct_identity_route by (metis mset_eq_imp_distinct_iff)
qed

lemma chromosome_set: "chromosome n route \<Longrightarrow> set route = (\<lambda>i. Some (int i)) ` {..<n}"
proof -
  assume "chromosome n route"
  then have "mset route = mset (identity_route n)" by (simp add: chromosome_def)
  then have "set route = set (identity_route n)" by (rule mset_eq_setD)
  then show ?thesis by (simp add: set_identity_route)
qed

lemma chromosome_no_filler: "chromosome n route \<Longrightarrow> Some (- 1) \<notin> set route"
  by (auto simp: chromosome_set)

lemma chromosome_same_mset: "chromosome n p \<Longrightarrow> mset q = mset p \<Longrightarrow> chromosome n q"
  by (simp add: chromosome_def)

lemma chromosome_js_swap:
  "chromosome n route \<Longrightarrow> i < n \<Longrightarrow> j < n \<Longrightarrow> chromosome n (js_swap route i j)"
  by (simp add: chromosome_def[of n "js_swap route i j"] mset_js_swap chromosome_length
        chromosome_def[symmetric])

lemma shuffle_from_chromosome:
  "chromosome n route \<Longrightarrow> j < n \<Longrightarrow> chromosome n (fst (shuffle_from r c route j))"
proof (induction j arbitrary: c route)
  case 0
  then show ?case by simp
next
  case (Suc j)
  have "random_below r c (Suc j + 1) < Suc j + 1" by (rule random_below_less) simp
  then have k: "random_below r c (Suc j + 1) < n" using Suc.prems(2) by simp
  have "chromosome n (js_swap route (Suc j) (random_below r c (Suc j + 1)))"
    using Suc.prems k by (intro chromosome_js_swap) simp_all
  from Suc.IH[OF this] Suc.prems(2) show ?case by (simp add: Let_def)
qed

lemma shuffle_chromosome: "chromosome n (fst (shuffle r c (identity_route n)))"
proof (cases "n = 0")
  case True
  then show ?thesis by (simp add: shuffle_def identity_route_def chromosome_def)
next
  case False
  then show ?thesis
    unfolding shuffle_def length_identity_route
    by (intro shuffle_from_chromosome chromosome_identity) simp
qed

lemma init_population_valid: "population_of n m (fst (init_population r c n m))"
proof (induction m arbitrary: c)
  case 0
  then show ?case by (simp add: population_of_def)
next
  case (Suc m)
  obtain route c1 where s: "shuffle r c (identity_route n) = (route, c1)"
    by (cases "shuffle r c (identity_route n)")
  obtain rest c2 where i: "init_population r c1 n m = (rest, c2)"
    by (cases "init_population r c1 n m")
  have "chromosome n route" using shuffle_chromosome[of n r c] s by simp
  moreover have "population_of n m rest" using Suc.IH[of c1] i by simp
  ultimately show ?case using s i by (simp add: population_of_def)
qed

subsection \<open>The copied segment\<close>

lemma copy_segment_upto:
  assumes "length child = n" "length parent1 = n" "k \<le> n"
  shows "length (fold (\<lambda>i child. js_set child i (js_nth parent1 i)) [a..<k] child) = n \<and>
         (\<forall>i<n. fold (\<lambda>i child. js_set child i (js_nth parent1 i)) [a..<k] child ! i =
                  (if a \<le> i \<and> i < k then parent1 ! i else child ! i))"
  using assms(3)
proof (induction k)
  case 0
  then show ?case using assms(1) by simp
next
  case (Suc k)
  let ?f = "\<lambda>i child. js_set child i (js_nth parent1 i)"
  show ?case
  proof (cases "a \<le> k")
    case False
    then have "[a..<Suc k] = []" by simp
    then show ?thesis using assms(1) False by auto
  next
    case True
    have k: "k < n" using Suc.prems by simp
    from Suc.IH k have
      l: "length (fold ?f [a..<k] child) = n" and
      v: "\<forall>i<n. fold ?f [a..<k] child ! i = (if a \<le> i \<and> i < k then parent1 ! i else child ! i)"
      by simp_all
    have "fold ?f [a..<Suc k] child = ?f k (fold ?f [a..<k] child)"
      using True by simp
    also have "\<dots> = (fold ?f [a..<k] child)[k := parent1 ! k]"
      using k l assms(2) by (simp add: js_set_in_range js_nth_in_range)
    finally have e: "fold ?f [a..<Suc k] child = (fold ?f [a..<k] child)[k := parent1 ! k]" .
    have "\<forall>i<n. (fold ?f [a..<k] child)[k := parent1 ! k] ! i =
                  (if a \<le> i \<and> i < Suc k then parent1 ! i else child ! i)"
    proof (intro allI impI)
      fix i assume i: "i < n"
      show "(fold ?f [a..<k] child)[k := parent1 ! k] ! i =
              (if a \<le> i \<and> i < Suc k then parent1 ! i else child ! i)"
      proof (cases "i = k")
        case True
        then show ?thesis using l k \<open>a \<le> k\<close> by simp
      next
        case False
        then have "(fold ?f [a..<k] child)[k := parent1 ! k] ! i = fold ?f [a..<k] child ! i"
          by simp
        also have "\<dots> = (if a \<le> i \<and> i < k then parent1 ! i else child ! i)"
          using v i by simp
        also have "\<dots> = (if a \<le> i \<and> i < Suc k then parent1 ! i else child ! i)"
          using False by (simp add: less_Suc_eq)
        finally show ?thesis .
      qed
    qed
    then show ?thesis unfolding e using l by simp
  qed
qed

lemma copy_segment_nth:
  assumes "length parent1 = n" "b < n"
  shows "length (copy_segment (replicate n v) parent1 a b) = n"
    and "i < n \<Longrightarrow> copy_segment (replicate n v) parent1 a b ! i =
           (if a \<le> i \<and> i \<le> b then parent1 ! i else v)"
proof -
  have b: "b + 1 \<le> n" using assms(2) by simp
  have r: "length (replicate n v) = n" by simp
  from copy_segment_upto[OF r assms(1) b, where a = a]
  show "length (copy_segment (replicate n v) parent1 a b) = n"
    by (simp add: copy_segment_def)
  from copy_segment_upto[OF r assms(1) b, where a = a]
  show "i < n \<Longrightarrow> copy_segment (replicate n v) parent1 a b ! i =
           (if a \<le> i \<and> i \<le> b then parent1 ! i else v)"
    by (auto simp: copy_segment_def)
qed

lemma copy_segment_genes:
  assumes "length parent1 = n" "b < n" "v \<notin> set parent1"
  shows "filter_mset (\<lambda>x. x \<noteq> v) (mset (copy_segment (replicate n v) parent1 a b))
           \<subseteq># mset parent1"
proof -
  let ?c = "copy_segment (replicate n v) parent1 a b"
  let ?f = "\<lambda>i. if a \<le> i \<and> i \<le> b then parent1 ! i else v"
  note c = copy_segment_nth[OF assms(1,2), where v = v and a = a]
  have "?c = map ?f [0..<n]"
    by (rule nth_equalityI) (simp_all add: c)
  then have "filter (\<lambda>x. x \<noteq> v) ?c = filter (\<lambda>x. x \<noteq> v) (map ?f [0..<n])" by simp
  also have "\<dots> = map ?f (filter (\<lambda>i. ?f i \<noteq> v) [0..<n])"
    by (simp add: filter_map comp_def)
  also have "filter (\<lambda>i. ?f i \<noteq> v) [0..<n] = filter (\<lambda>i. a \<le> i \<and> i \<le> b) [0..<n]"
  proof (rule filter_cong[OF refl])
    fix i assume "i \<in> set [0..<n]"
    then have "parent1 ! i \<in> set parent1" using assms(1) by simp
    then have "parent1 ! i \<noteq> v" using assms(3) by auto
    then show "(?f i \<noteq> v) = (a \<le> i \<and> i \<le> b)" by simp
  qed
  also have "map ?f (filter (\<lambda>i. a \<le> i \<and> i \<le> b) [0..<n]) =
               map (\<lambda>i. parent1 ! i) (filter (\<lambda>i. a \<le> i \<and> i \<le> b) [0..<n])"
    by (rule map_cong) auto
  finally have "mset (filter (\<lambda>x. x \<noteq> v) ?c) =
                  image_mset (\<lambda>i. parent1 ! i) (filter_mset (\<lambda>i. a \<le> i \<and> i \<le> b) (mset [0..<n]))"
    by simp
  also have "\<dots> \<subseteq># image_mset (\<lambda>i. parent1 ! i) (mset [0..<n])"
    by (rule image_mset_subseteq_mono) (rule multiset_filter_subset)
  also have "image_mset (\<lambda>i. parent1 ! i) (mset [0..<n]) = mset (map (\<lambda>i. parent1 ! i) [0..<n])"
    by simp
  also have "map (\<lambda>i. parent1 ! i) [0..<n] = parent1"
    using assms(1) map_nth[of parent1] by simp
  finally show ?thesis by simp
qed

subsection \<open>Cyclic intervals of positions\<close>

lemma cyc_interval_empty: "cyc_interval n x x = {}"
  by (simp add: cyc_interval_def)

lemma cyc_interval_first: "x < n \<Longrightarrow> x \<noteq> y \<Longrightarrow> x \<in> cyc_interval n x y"
  by (auto simp: cyc_interval_def)

lemma cyc_interval_step:
  assumes "x < n" "y < n" "x \<noteq> y"
  shows "cyc_interval n ((x + 1) mod n) y = cyc_interval n x y - {x}"
proof (cases "x + 1 < n")
  case True
  then show ?thesis using assms by (auto simp: cyc_interval_def)
next
  case False
  then have "x + 1 = n" using assms(1) by simp
  then show ?thesis using assms by (auto simp: cyc_interval_def)
qed

lemma cyc_interval_after_segment:
  assumes "a \<le> b" "b < n"
  shows "cyc_interval n ((b + 1) mod n) a = {i. i < n \<and> \<not> (a \<le> i \<and> i \<le> b)}"
proof (cases "b + 1 < n")
  case True
  then show ?thesis using assms by (auto simp: cyc_interval_def)
next
  case False
  then have "b + 1 = n" using assms(2) by simp
  then show ?thesis using assms by (auto simp: cyc_interval_def)
qed

subsection \<open>The fill loop of the order crossover returns\<close>

lemma filter_mset_no_filler:
  "v \<notin> set xs \<Longrightarrow> filter_mset (\<lambda>x. x \<noteq> v) (mset xs) = mset xs"
  by (induction xs) auto

lemma size_filter_mset_less:
  assumes "v \<in> set xs"
  shows "size (filter_mset (\<lambda>x. x \<noteq> v) (mset xs)) < length xs"
proof -
  have "mset xs = filter_mset (\<lambda>x. x \<noteq> v) (mset xs) + filter_mset (\<lambda>x. \<not> x \<noteq> v) (mset xs)"
    by (rule multiset_partition)
  then have "size (mset xs) =
      size (filter_mset (\<lambda>x. x \<noteq> v) (mset xs)) + size (filter_mset (\<lambda>x. \<not> x \<noteq> v) (mset xs))"
    by (metis size_union)
  moreover have "v \<in># filter_mset (\<lambda>x. \<not> x \<noteq> v) (mset xs)" using assms by simp
  then have "0 < size (filter_mset (\<lambda>x. \<not> x \<noteq> v) (mset xs))"
    by (metis size_eq_0_iff_empty empty_iff set_mset_empty neq0_conv)
  ultimately show ?thesis by simp
qed

lemma subset_mset_same_size:
  assumes "M \<subseteq># N" "size N = size M"
  shows "M = N"
proof (rule ccontr)
  assume "M \<noteq> N"
  with assms(1) have "M \<subset># N" by (simp add: subset_mset.less_le)
  then have "size M < size N" by (rule mset_subset_size)
  with assms(2) show False by simp
qed

lemma missing_gene:
  assumes "distinct p2" "M \<subseteq># mset p2" "size M < length p2"
  shows "\<exists>g\<in>set p2. g \<notin># M"
proof (rule ccontr)
  assume "\<not> (\<exists>g\<in>set p2. g \<notin># M)"
  then have all: "\<And>g. g \<in> set p2 \<Longrightarrow> g \<in># M" by blast
  have "mset p2 \<subseteq># M"
  proof (rule mset_subset_eqI)
    fix g
    show "count (mset p2) g \<le> count M g"
    proof (cases "g \<in> set p2")
      case True
      then have "count (mset p2) g = 1" using assms(1) by (simp add: distinct_count_atmost_1)
      moreover have "1 \<le> count M g" using all[OF True] by (simp add: Suc_le_eq)
      ultimately show ?thesis by simp
    next
      case False
      then have z: "count (mset p2) g = 0" by simp
      show ?thesis unfolding z by simp
    qed
  qed
  with assms(2) have "M = mset p2" by (rule subset_mset.antisym)
  then show False using assms(3) by simp
qed

lemma add_gene_subset:
  assumes "M \<subseteq># N" "g \<in># N" "g \<notin># M"
  shows "add_mset g M \<subseteq># N"
proof (rule mset_subset_eqI)
  fix x
  show "count (add_mset g M) x \<le> count N x"
  proof (cases "x = g")
    case True
    have "count M g = 0" using assms(3) by (simp add: count_eq_zero_iff)
    moreover have "1 \<le> count N g" using assms(2) by (simp add: Suc_le_eq)
    ultimately show ?thesis using True by simp
  next
    case False
    then show ?thesis using assms(1) by (simp add: mset_subset_eq_count)
  qed
qed

lemma fill_remaining_completes:
  assumes "0 < n" "distinct p2" "length p2 = n" "Some (- 1) \<notin> set p2" "a < n"
    and "length child = n" "ci < n" "pidx < n"
    and "{i. i < n \<and> child ! i = Some (- 1)} = cyc_interval n ci a"
    and "filter_mset (\<lambda>x. x \<noteq> Some (- 1)) (mset child) \<subseteq># mset p2"
    and "\<forall>g\<in>set p2. g \<notin> set child \<longrightarrow> (\<exists>q<u. p2 ! ((pidx + q) mod n) = g)"
  shows "\<exists>child'. fill_remaining p2 n a child ci pidx = Some child' \<and> mset child' = mset p2"
  using assms(6-11)
proof (induction u arbitrary: child ci pidx)
  case 0
  note len = "0.prems"(1) and holes = "0.prems"(4) and genes = "0.prems"(5) and scan = "0.prems"(6)
  show ?case
  proof (cases "ci = a")
    case True
    then have "{i. i < n \<and> child ! i = Some (- 1)} = {}" using holes by (simp add: cyc_interval_empty)
    then have "Some (- 1) \<notin> set child" using len by (auto simp: in_set_conv_nth)
    then have "mset child \<subseteq># mset p2" using genes by (simp add: filter_mset_no_filler)
    moreover have "size (mset p2) = size (mset child)" using len assms(3) by simp
    ultimately have "mset child = mset p2" by (rule subset_mset_same_size)
    then show ?thesis using True by (subst fill_remaining.simps) simp
  next
    case False
    have "ci \<in> cyc_interval n ci a" using "0.prems"(2) False by (rule cyc_interval_first)
    then have "child ! ci = Some (- 1)" using holes by auto
    then have "Some (- 1) \<in> set child" using "0.prems"(2) len by (metis nth_mem)
    then have "size (filter_mset (\<lambda>x. x \<noteq> Some (- 1)) (mset child)) < length p2"
      using size_filter_mset_less[of "Some (- 1)" child] len assms(3) by simp
    from missing_gene[OF assms(2) genes this] obtain g where
      g: "g \<in> set p2" "g \<notin># filter_mset (\<lambda>x. x \<noteq> Some (- 1)) (mset child)"
      by blast
    have "g \<noteq> Some (- 1)" using g(1) assms(4) by auto
    then have "g \<notin> set child" using g(2) by simp
    with scan g(1) show ?thesis by simp
  qed
next
  case (Suc u)
  note len = Suc.prems(1) and ci = Suc.prems(2) and pidx = Suc.prems(3)
    and holes = Suc.prems(4) and genes = Suc.prems(5) and scan = Suc.prems(6)
  show ?case
  proof (cases "ci = a")
    case True
    then have "{i. i < n \<and> child ! i = Some (- 1)} = {}" using holes by (simp add: cyc_interval_empty)
    then have "Some (- 1) \<notin> set child" using len by (auto simp: in_set_conv_nth)
    then have "mset child \<subseteq># mset p2" using genes by (simp add: filter_mset_no_filler)
    moreover have "size (mset p2) = size (mset child)" using len assms(3) by simp
    ultimately have "mset child = mset p2" by (rule subset_mset_same_size)
    then show ?thesis using True by (subst fill_remaining.simps) simp
  next
    case False
    have "ci \<in> cyc_interval n ci a" using ci False by (rule cyc_interval_first)
    then have hole: "child ! ci = Some (- 1)" using holes by auto
    define g0 where "g0 = p2 ! pidx"
    have g0: "js_nth p2 pidx = g0" using pidx assms(3) by (simp add: js_nth_in_range g0_def)
    have g0_p2: "g0 \<in> set p2" using pidx assms(3) by (simp add: g0_def)
    have g0_ne: "g0 \<noteq> Some (- 1)" using g0_p2 assms(4) by auto
    have pidx': "(pidx + 1) mod n < n" and ci': "(ci + 1) mod n < n" using assms(1) by simp_all
    have shift: "\<And>q. (pidx + Suc q) mod n = ((pidx + 1) mod n + q) mod n"
      by (simp add: mod_add_left_eq)
    show ?thesis
    proof (cases "g0 \<in> set child")
      case True
      have step: "fill_remaining p2 n a child ci pidx =
                    fill_remaining p2 n a child ci ((pidx + 1) mod n)"
        by (subst fill_remaining.simps) (use False True g0 in simp)
      have scan': "\<forall>g\<in>set p2. g \<notin> set child \<longrightarrow> (\<exists>q<u. p2 ! (((pidx + 1) mod n + q) mod n) = g)"
      proof (intro ballI impI)
        fix g assume "g \<in> set p2" "g \<notin> set child"
        with scan obtain q where q: "q < Suc u" "p2 ! ((pidx + q) mod n) = g" by blast
        have "q \<noteq> 0"
        proof
          assume "q = 0"
          then have "g = g0" using q(2) pidx by (simp add: g0_def)
          then show False using True \<open>g \<notin> set child\<close> by simp
        qed
        then obtain q' where "q = Suc q'" by (cases q) auto
        then show "\<exists>q<u. p2 ! (((pidx + 1) mod n + q) mod n) = g"
          using q shift[of q'] by auto
      qed
      from Suc.IH[OF len ci pidx' holes genes scan'] step show ?thesis by simp
    next
      case notin: False
      let ?child = "child[ci := g0]"
      have step: "fill_remaining p2 n a child ci pidx =
                    fill_remaining p2 n a ?child ((ci + 1) mod n) ((pidx + 1) mod n)"
        by (subst fill_remaining.simps) (use False notin g0 ci len in \<open>simp add: js_set_in_range\<close>)
      have len': "length ?child = n" using len by simp
      have holes': "{i. i < n \<and> ?child ! i = Some (- 1)} = cyc_interval n ((ci + 1) mod n) a"
      proof -
        have "{i. i < n \<and> ?child ! i = Some (- 1)} = {i. i < n \<and> child ! i = Some (- 1)} - {ci}"
          using len ci g0_ne by (auto simp: nth_list_update)
        also have "\<dots> = cyc_interval n ci a - {ci}" using holes by simp
        also have "\<dots> = cyc_interval n ((ci + 1) mod n) a"
          using cyc_interval_step[OF ci assms(5) False] by simp
        finally show ?thesis .
      qed
      have genes': "filter_mset (\<lambda>x. x \<noteq> Some (- 1)) (mset ?child) \<subseteq># mset p2"
      proof -
        have "mset ?child = add_mset g0 (mset child - {#child ! ci#})"
          using ci len by (simp add: mset_update)
        then have "filter_mset (\<lambda>x. x \<noteq> Some (- 1)) (mset ?child) =
                     add_mset g0 (filter_mset (\<lambda>x. x \<noteq> Some (- 1)) (mset child))"
          using hole g0_ne by (simp add: filter_diff_mset)
        moreover have "g0 \<notin># filter_mset (\<lambda>x. x \<noteq> Some (- 1)) (mset child)"
          using notin by simp
        moreover have "g0 \<in># mset p2" using g0_p2 by simp
        ultimately show ?thesis using genes by (simp add: add_gene_subset)
      qed
      have keep: "\<And>g. g \<in> set p2 \<Longrightarrow> g \<in> set child \<Longrightarrow> g \<in> set ?child"
      proof -
        fix g assume gp: "g \<in> set p2" and gc: "g \<in> set child"
        then obtain i where i: "i < length child" "child ! i = g" by (auto simp: in_set_conv_nth)
        have "g \<noteq> Some (- 1)" using gp assms(4) by auto
        then have "i \<noteq> ci" using i(2) hole by auto
        then have "?child ! i = g" using i by simp
        then show "g \<in> set ?child" using i(1) by (metis length_list_update nth_mem)
      qed
      have g0_in: "g0 \<in> set ?child" using ci len by (metis length_list_update nth_list_update_eq nth_mem)
      have scan': "\<forall>g\<in>set p2. g \<notin> set ?child \<longrightarrow> (\<exists>q<u. p2 ! (((pidx + 1) mod n + q) mod n) = g)"
      proof (intro ballI impI)
        fix g assume gp: "g \<in> set p2" and gn: "g \<notin> set ?child"
        then have "g \<notin> set child" using keep by blast
        with scan gp obtain q where q: "q < Suc u" "p2 ! ((pidx + q) mod n) = g" by blast
        have "q \<noteq> 0"
        proof
          assume "q = 0"
          then have "g = g0" using q(2) pidx by (simp add: g0_def)
          then show False using g0_in gn by simp
        qed
        then obtain q' where "q = Suc q'" by (cases q) auto
        then show "\<exists>q<u. p2 ! (((pidx + 1) mod n + q) mod n) = g"
          using q shift[of q'] by auto
      qed
      from Suc.IH[OF len' ci' pidx' holes' genes' scan'] step show ?thesis by simp
    qed
  qed
qed

subsection \<open>The order crossover and the mutation keep chromosomes\<close>

lemma scan_window_covers:
  assumes "k < n" "s < n"
  shows "\<exists>q<n. (s + q) mod n = (k::nat)"
proof (cases "s \<le> k")
  case True
  then have "k - s < n" "(s + (k - s)) mod n = k" using assms by simp_all
  then show ?thesis by blast
next
  case False
  then have "k + n - s < n" "(s + (k + n - s)) mod n = k" using assms by simp_all
  then show ?thesis by blast
qed

lemma orderCrossover_chromosome:
  assumes "chromosome n parent1" "chromosome n parent2" "0 < n"
  shows "\<exists>child. orderCrossover r c parent1 parent2 = Some (child, c + 2) \<and> chromosome n child"
proof -
  define start where "start = random_below r c n"
  define en where "en = random_below r (c + 1) n"
  define a where "a = (if start < en then start else en)"
  define b where "b = (if start < en then en else start)"
  define child where "child = copy_segment (replicate n (Some (- 1))) parent1 a b"
  have l1: "length parent1 = n" and l2: "length parent2 = n"
    using assms(1,2) by (simp_all add: chromosome_length)
  have "start < n" "en < n" using assms(3) by (simp_all add: start_def en_def random_below_less)
  then have ab: "a \<le> b" "b < n" "a < n" by (auto simp: a_def b_def)
  have f1: "Some (- 1) \<notin> set parent1" and f2: "Some (- 1) \<notin> set parent2"
    using assms(1,2) by (simp_all add: chromosome_no_filler)
  have same: "mset parent1 = mset parent2" using assms(1,2) by (simp add: chromosome_def)
  have lc: "length child = n"
    unfolding child_def by (rule copy_segment_nth(1)[OF l1 ab(2)])
  have nc: "\<And>i. i < n \<Longrightarrow> child ! i = (if a \<le> i \<and> i \<le> b then parent1 ! i else Some (- 1))"
    unfolding child_def by (rule copy_segment_nth(2)[OF l1 ab(2)])
  have p1: "\<And>i. i < n \<Longrightarrow> parent1 ! i \<noteq> Some (- 1)"
    using f1 l1 by (metis nth_mem)
  have "{i. i < n \<and> child ! i = Some (- 1)} = {i. i < n \<and> \<not> (a \<le> i \<and> i \<le> b)}"
    using nc p1 by auto
  then have holes: "{i. i < n \<and> child ! i = Some (- 1)} = cyc_interval n ((b + 1) mod n) a"
    using cyc_interval_after_segment[OF ab(1,2)] by simp
  have "filter_mset (\<lambda>x. x \<noteq> Some (- 1)) (mset child) \<subseteq># mset parent1"
    unfolding child_def by (rule copy_segment_genes[OF l1 ab(2) f1])
  then have genes: "filter_mset (\<lambda>x. x \<noteq> Some (- 1)) (mset child) \<subseteq># mset parent2"
    using same by simp
  have cur: "(b + 1) mod n < n" using assms(3) by simp
  have scan: "\<forall>g\<in>set parent2. g \<notin> set child \<longrightarrow>
                (\<exists>q<n. parent2 ! (((b + 1) mod n + q) mod n) = g)"
  proof (intro ballI impI)
    fix g assume "g \<in> set parent2"
    then obtain k where k: "k < n" "parent2 ! k = g" using l2 by (auto simp: in_set_conv_nth)
    from scan_window_covers[OF k(1) cur] obtain q where "q < n" "((b + 1) mod n + q) mod n = k"
      by blast
    with k(2) show "\<exists>q<n. parent2 ! (((b + 1) mod n + q) mod n) = g" by auto
  qed
  from fill_remaining_completes[OF assms(3) chromosome_distinct[OF assms(2)] l2 f2 ab(3) lc cur cur
      holes genes scan]
  obtain child' where
    f: "fill_remaining parent2 n a child ((b + 1) mod n) ((b + 1) mod n) = Some child'" and
    m: "mset child' = mset parent2"
    by blast
  have "chromosome n child'" using assms(2) m by (rule chromosome_same_mset)
  moreover have "orderCrossover r c parent1 parent2 = Some (child', c + 2)"
  proof -
    have "orderCrossover r c parent1 parent2 =
            (case fill_remaining parent2 n a child ((b + 1) mod n) ((b + 1) mod n) of
               None \<Rightarrow> None
             | Some child' \<Rightarrow> Some (child', c + 2))"
      unfolding orderCrossover_def Let_def l1 child_def a_def b_def start_def en_def
      using assms(3) by simp
    then show ?thesis using f by simp
  qed
  ultimately show ?thesis by blast
qed

lemma mutate_chromosome:
  assumes "chromosome n route" "0 < n"
  shows "chromosome n (fst (mutate r c route)) \<and> snd (mutate r c route) = c + 2"
proof -
  have l: "length route = n" using assms(1) by (rule chromosome_length)
  have "random_below r c n < n" "random_below r (c + 1) n < n"
    using assms(2) by (simp_all add: random_below_less)
  then show ?thesis
    using assms(1) l by (simp add: mutate_def Let_def chromosome_js_swap)
qed

subsection \<open>Breeding keeps populations\<close>

lemma tournament_member:
  "idx1 < length population \<Longrightarrow> idx2 < length population \<Longrightarrow>
     tournament fitness population idx1 idx2 \<in> set population"
  by (simp add: tournament_def)

lemma breed_chromosome:
  assumes "population_of n m population" "0 < m" "0 < n"
  shows "\<exists>child c'. breed r c population fitness m = Some (child, c') \<and> chromosome n child"
proof -
  define parent1 where "parent1 = tournament fitness population
      (random_below r c m) (random_below r (c + 1) m)"
  define parent2 where "parent2 = tournament fitness population
      (random_below r (c + 2) m) (random_below r (c + 3) m)"
  have l: "length population = m" and all: "\<forall>route\<in>set population. chromosome n route"
    using assms(1) by (simp_all add: population_of_def)
  have idx: "\<And>k. random_below r k m < length population"
    using assms(2) l by (simp add: random_below_less)
  have "parent1 \<in> set population" "parent2 \<in> set population"
    unfolding parent1_def parent2_def by (rule tournament_member[OF idx idx])+
  then have p: "chromosome n parent1" "chromosome n parent2" using all by simp_all
  from orderCrossover_chromosome[OF p assms(3), of r "c + 4"] obtain child where
    x: "orderCrossover r (c + 4) parent1 parent2 = Some (child, c + 4 + 2)" and
    v: "chromosome n child"
    by blast
  have b: "breed r c population fitness m =
             (if Rep_unit_real (r (c + 4 + 2)) < 1 / 10
              then Some (mutate r (c + 4 + 2 + 1) child)
              else Some (child, c + 4 + 2 + 1))"
    using x unfolding breed_def parent1_def parent2_def
    by (simp add: Let_def)
  show ?thesis
  proof (cases "Rep_unit_real (r (c + 4 + 2)) < 1 / 10")
    case True
    obtain child' c' where mu: "mutate r (c + 4 + 2 + 1) child = (child', c')"
      by (cases "mutate r (c + 4 + 2 + 1) child")
    have "chromosome n child'"
      using mutate_chromosome[OF v assms(3), of r "c + 4 + 2 + 1"] mu by simp
    then show ?thesis using b True mu by simp
  next
    case False
    then show ?thesis using b v by simp
  qed
qed

lemma breed_all_population:
  assumes "population_of n m population" "0 < m" "0 < n"
  shows "\<exists>newPopulation c'.
           breed_all r c population fitness m k = Some (newPopulation, c') \<and>
           population_of n k newPopulation"
proof (induction k arbitrary: c)
  case 0
  then show ?case by (simp add: population_of_def)
next
  case (Suc k)
  from breed_chromosome[OF assms, of r c fitness] obtain child c1 where
    b: "breed r c population fitness m = Some (child, c1)" and v: "chromosome n child"
    by blast
  from Suc.IH[of c1] obtain rest c2 where
    r: "breed_all r c1 population fitness m k = Some (rest, c2)" and p: "population_of n k rest"
    by blast
  show ?case using b v r p by (simp add: population_of_def)
qed

subsection \<open>Distances of chromosomes\<close>

lemma chromosome_route_stops:
  assumes "chromosome (length ss) route"
  shows "route_stops ss route = Inr (map (\<lambda>g. ss ! nat (the g)) route) \<and>
         mset (map (\<lambda>g. ss ! nat (the g)) route) = mset ss"
proof
  have "\<And>g. g \<in> set route \<Longrightarrow> gene_stop ss g = Inr (ss ! nat (the g))"
  proof -
    fix g assume "g \<in> set route"
    then obtain i where "i < length ss" "g = Some (int i)"
      using chromosome_set[OF assms] by auto
    then show "gene_stop ss g = Inr (ss ! nat (the g))"
      by (simp add: gene_stop_def stop_at_def)
  qed
  then show "route_stops ss route = Inr (map (\<lambda>g. ss ! nat (the g)) route)"
    unfolding route_stops_def by (rule map_err_valid)
  have "mset (map (\<lambda>g. ss ! nat (the g)) route) = image_mset (\<lambda>g. ss ! nat (the g)) (mset route)"
    by simp
  also have "\<dots> = image_mset (\<lambda>g. ss ! nat (the g)) (mset (identity_route (length ss)))"
    using assms by (simp add: chromosome_def)
  also have "\<dots> = mset (map (\<lambda>g. ss ! nat (the g)) (identity_route (length ss)))" by simp
  also have "map (\<lambda>g. ss ! nat (the g)) (identity_route (length ss)) = map (\<lambda>i. ss ! i) [0..<length ss]"
    by (simp add: identity_route_def)
  also have "map (\<lambda>i. ss ! i) [0..<length ss] = ss" by (rule map_nth)
  finally show "mset (map (\<lambda>g. ss ! nat (the g)) route) = mset ss" .
qed

lemma chromosome_route_distance:
  assumes "chromosome (length ss) route"
  shows "route_distance ss route = Inr (calculateRouteDistance (map (\<lambda>g. ss ! nat (the g)) route))"
proof (cases "length route < 2")
  case True
  then have "calculateRouteDistance (map (\<lambda>g. ss ! nat (the g)) route) = 0"
    by (simp add: calculateRouteDistance_def)
  with True show ?thesis by (simp add: route_distance_def)
next
  case False
  then show ?thesis using chromosome_route_stops[OF assms] by (simp add: route_distance_def)
qed

lemma population_distances:
  assumes "population_of (length ss) m population"
  shows "map_err (route_distance ss) population =
           Inr (map (\<lambda>route. calculateRouteDistance (map (\<lambda>g. ss ! nat (the g)) route)) population)"
proof (rule map_err_valid)
  fix route assume "route \<in> set population"
  then have "chromosome (length ss) route" using assms by (simp add: population_of_def)
  then show "route_distance ss route =
               Inr (calculateRouteDistance (map (\<lambda>g. ss ! nat (the g)) route))"
    by (rule chromosome_route_distance)
qed

lemma population_fitness:
  assumes "population_of (length ss) m population"
  shows "\<exists>fitness. fitness_of ss population = Inr fitness"
proof -
  have "fitness_of ss population =
          Inr (map (\<lambda>route. 1 / (calculateRouteDistance (map (\<lambda>g. ss ! nat (the g)) route) + 1 / 10))
                 population)"
    unfolding fitness_of_def
  proof (rule map_err_valid)
    fix route assume "route \<in> set population"
    then have "chromosome (length ss) route" using assms by (simp add: population_of_def)
    then show "(case route_distance ss route of Inl e \<Rightarrow> Inl e | Inr d \<Rightarrow> Inr (1 / (d + 1 / 10))) =
                 Inr (1 / (calculateRouteDistance (map (\<lambda>g. ss ! nat (the g)) route) + 1 / 10))"
      by (simp add: chromosome_route_distance)
  qed
  then show ?thesis by blast
qed

lemma evolve_population:
  assumes "population_of (length ss) m population" "0 < length ss"
  shows "\<exists>population' c'.
           evolve r c ss population m g = Some (Inr (population', c')) \<and>
           population_of (length ss) m population'"
  using assms(1)
proof (induction g arbitrary: c population)
  case 0
  then show ?case by simp
next
  case (Suc g)
  from population_fitness[OF Suc.prems] obtain fitness where
    f: "fitness_of ss population = Inr fitness"
    by blast
  have "\<exists>newPopulation c'.
          breed_all r c population fitness m m = Some (newPopulation, c') \<and>
          population_of (length ss) m newPopulation"
  proof (cases "m = 0")
    case True
    then show ?thesis by (simp add: population_of_def)
  next
    case False
    then have "0 < m" by simp
    from breed_all_population[OF Suc.prems this assms(2)] show ?thesis .
  qed
  then obtain newPopulation c' where
    b: "breed_all r c population fitness m m = Some (newPopulation, c')" and
    p: "population_of (length ss) m newPopulation"
    by blast
  from Suc.IH[OF p, of c'] show ?case using f b by simp
qed

subsection \<open>The selection of the best chromosome\<close>

lemma index_from_found:
  "x \<in> set xs \<Longrightarrow>
     \<exists>k<length xs. index_from (Num x) xs i = i + int k \<and> xs ! k = x \<and> (\<forall>j<k. xs ! j \<noteq> x)"
proof (induction xs arbitrary: i)
  case Nil
  then show ?case by simp
next
  case (Cons y ys)
  show ?case
  proof (cases "y = x")
    case True
    then have "0 < length (y # ys) \<and> index_from (Num x) (y # ys) i = i + int 0 \<and>
               (y # ys) ! 0 = x \<and> (\<forall>j<0. (y # ys) ! j \<noteq> x)"
      by simp
    then show ?thesis by blast
  next
    case False
    then have "x \<in> set ys" using Cons.prems by simp
    from Cons.IH[OF this, of "i + 1"] obtain k where
      k: "k < length ys" "index_from (Num x) ys (i + 1) = i + 1 + int k" "ys ! k = x"
         "\<forall>j<k. ys ! j \<noteq> x"
      by blast
    have "\<forall>j<Suc k. (y # ys) ! j \<noteq> x"
    proof (intro allI impI)
      fix j assume "j < Suc k"
      then show "(y # ys) ! j \<noteq> x" using False k(4) by (cases j) auto
    qed
    then have "Suc k < length (y # ys) \<and> index_from (Num x) (y # ys) i = i + int (Suc k) \<and>
               (y # ys) ! Suc k = x \<and> (\<forall>j<Suc k. (y # ys) ! j \<noteq> x)"
      using False k by simp
    then show ?thesis by blast
  qed
qed

lemma js_min_nonempty:
  assumes "xs \<noteq> []"
  shows "js_min xs = Num (Min (set xs))" "Min (set xs) \<in> set xs" "\<forall>x\<in>set xs. Min (set xs) \<le> x"
proof -
  show "js_min xs = Num (Min (set xs))" using assms by (simp add: js_min_def)
  show "Min (set xs) \<in> set xs" using assms by (intro Min_in) simp_all
  show "\<forall>x\<in>set xs. Min (set xs) \<le> x" by simp
qed

lemma geneticAlgorithm_small:
  "length ss < 4 \<Longrightarrow>
     geneticAlgorithm r c ss m g =
       (case nearestNeighbor ss of Inl e \<Rightarrow> Some (Inl e) | Inr res \<Rightarrow> Some (Inr (res, c)))"
  by (simp add: geneticAlgorithm_def)

lemma geneticAlgorithm_selects:
  assumes "\<not> length ss < 4"
    and "init_population r c (length ss) m = (population0, c0)"
    and "evolve r c0 ss population0 m g = Some (Inr (population, c1))"
    and "population_of (length ss) m population" "0 < m"
  shows "\<exists>res nn best.
           geneticAlgorithm r c ss m g = Some (Inr (res, c1)) \<and>
           nearestNeighbor ss = Inr nn \<and>
           best \<in> set population \<and>
           stops res = tour_of ss best \<and>
           distance res = calculateRouteDistance (stops res) \<and>
           (\<forall>route\<in>set population. distance res \<le> calculateRouteDistance (tour_of ss route)) \<and>
           (\<exists>k<length population. best = population ! k \<and>
              (\<forall>j<k. distance res < calculateRouteDistance (tour_of ss (population ! j)))) \<and>
           improvement res = js_mul (js_div (distance nn - distance res) (distance nn)) 100"
proof -
  define ds where "ds = map (\<lambda>route. calculateRouteDistance (tour_of ss route)) population"
  have lp: "length population = m" and all: "\<forall>route\<in>set population. chromosome (length ss) route"
    using assms(4) by (simp_all add: population_of_def)
  have d: "map_err (route_distance ss) population = Inr ds"
    using population_distances[OF assms(4)] by (simp add: ds_def tour_of_def)
  have ne: "ds \<noteq> []" using lp assms(5) by (auto simp: ds_def)
  note mn = js_min_nonempty[OF ne]
  from index_from_found[OF mn(2), of 0] obtain k where
    k: "k < length ds" "index_from (Num (Min (set ds))) ds 0 = int k" "ds ! k = Min (set ds)"
       "\<forall>j<k. ds ! j \<noteq> Min (set ds)"
    by auto
  define best where "best = population ! k"
  have kp: "k < length population" using k(1) by (simp add: ds_def)
  have bm: "best \<in> set population" using kp by (simp add: best_def)
  then have bc: "chromosome (length ss) best" using all by simp
  have bs: "route_stops ss best = Inr (tour_of ss best)"
    using chromosome_route_stops[OF bc] by (simp add: tour_of_def)
  have bd: "calculateRouteDistance (tour_of ss best) = Min (set ds)"
    using k(3) kp by (simp add: ds_def best_def)
  from nearestNeighbor_returns[of ss] obtain nn where
    nn: "nearestNeighbor ss = Inr nn" "distance nn = calculateRouteDistance (stops nn)"
    by blast
  define res where "res = \<lparr>stops = tour_of ss best,
      distance = calculateRouteDistance (tour_of ss best),
      improvement = js_mul (js_div (calculateRouteDistance (stops nn) -
                                      calculateRouteDistance (tour_of ss best))
                             (calculateRouteDistance (stops nn))) 100\<rparr>"
  have idx: "indexOf ds (js_min ds) = int k" using k(2) mn(1) by (simp add: indexOf_def)
  have ga: "geneticAlgorithm r c ss m g = Some (Inr (res, c1))"
    unfolding geneticAlgorithm_def res_def
    using assms(1,2,3) d idx kp bs nn(1)
    by (simp add: Let_def best_def)
  have le: "\<forall>route\<in>set population. distance res \<le> calculateRouteDistance (tour_of ss route)"
  proof
    fix route assume "route \<in> set population"
    then have "calculateRouteDistance (tour_of ss route) \<in> set ds" by (simp add: ds_def)
    then have "Min (set ds) \<le> calculateRouteDistance (tour_of ss route)" using mn(3) by blast
    then show "distance res \<le> calculateRouteDistance (tour_of ss route)"
      using bd by (simp add: res_def)
  qed
  have first: "\<forall>j<k. distance res < calculateRouteDistance (tour_of ss (population ! j))"
  proof (intro allI impI)
    fix j assume j: "j < k"
    then have jl: "j < length ds" using k(1) by simp
    then have "ds ! j \<in> set ds" by simp
    then have "Min (set ds) \<le> ds ! j" using mn(3) by blast
    moreover have "ds ! j \<noteq> Min (set ds)" using k(4) j by blast
    ultimately have "Min (set ds) < ds ! j" by simp
    moreover have "ds ! j = calculateRouteDistance (tour_of ss (population ! j))"
      using jl by (simp add: ds_def)
    ultimately show "distance res < calculateRouteDistance (tour_of ss (population ! j))"
      using bd by (simp add: res_def)
  qed
  have fk: "\<exists>k<length population. best = population ! k \<and>
              (\<forall>j<k. distance res < calculateRouteDistance (tour_of ss (population ! j)))"
    using kp first best_def by blast
  have "stops res = tour_of ss best \<and> distance res = calculateRouteDistance (stops res) \<and>
        improvement res = js_mul (js_div (distance nn - distance res) (distance nn)) 100"
    using nn(2) by (simp add: res_def)
  with ga nn(1) bm le fk show ?thesis by blast
qed

lemma geneticAlgorithm_returns:
  assumes "0 < m \<or> length ss < 4"
  shows "\<exists>res c' nn.
           geneticAlgorithm r c ss m g = Some (Inr (res, c')) \<and>
           nearestNeighbor ss = Inr nn \<and>
           mset (stops res) = mset ss \<and>
           distance res = calculateRouteDistance (stops res) \<and>
           improvement res =
             (if length ss < 4 then Num 0
              else js_mul (js_div (distance nn - distance res) (distance nn)) 100)"
proof (cases "length ss < 4")
  case True
  from nearestNeighbor_returns[of ss] obtain nn where
    "nearestNeighbor ss = Inr nn" "mset (stops nn) = mset ss"
    "distance nn = calculateRouteDistance (stops nn)" "improvement nn = Num 0"
    by blast
  then show ?thesis using True by (simp add: geneticAlgorithm_small)
next
  case False
  then have m: "0 < m" and n: "0 < length ss" using assms by auto
  obtain population0 c0 where i: "init_population r c (length ss) m = (population0, c0)"
    by (cases "init_population r c (length ss) m")
  have p0: "population_of (length ss) m population0"
    using init_population_valid[of "length ss" m r c] i by simp
  from evolve_population[OF p0 n, of r c0 g] obtain population c1 where
    e: "evolve r c0 ss population0 m g = Some (Inr (population, c1))" and
    p: "population_of (length ss) m population"
    by blast
  from geneticAlgorithm_selects[OF False i e p m] obtain res nn best where
    r: "geneticAlgorithm r c ss m g = Some (Inr (res, c1))" "nearestNeighbor ss = Inr nn"
       "best \<in> set population" "stops res = tour_of ss best"
       "distance res = calculateRouteDistance (stops res)"
       "improvement res = js_mul (js_div (distance nn - distance res) (distance nn)) 100"
    by blast
  have "chromosome (length ss) best" using r(3) p by (simp add: population_of_def)
  then have "mset (tour_of ss best) = mset ss"
    using chromosome_route_stops[of ss best] by (simp add: tour_of_def)
  then show ?thesis using r False by simp
qed


section \<open>Facts about results\<close>


lemma same_place_distance:
  assumes "\<forall>s\<in>set tour. lat s = la \<and> lng s = lo"
  shows "calculateRouteDistance tour = 0"
proof -
  have "\<And>p. p \<in> set (zip tour (rotate1 tour)) \<Longrightarrow> (case p of (s, t) \<Rightarrow> stopDistance s t) = 0"
  proof -
    fix p assume a: "p \<in> set (zip tour (rotate1 tour))"
    obtain s t where st: "p = (s, t)" by (cases p)
    from a st have "s \<in> set tour" by (auto dest: set_zip_leftD)
    moreover from a st have "t \<in> set (rotate1 tour)" by (auto dest: set_zip_rightD)
    ultimately have p: "p = (s, t)" "s \<in> set tour" "t \<in> set tour" using st by simp_all
    then have "lat s = la" "lng s = lo" "lat t = la" "lng t = lo" using assms by auto
    then show "(case p of (s, t) \<Rightarrow> stopDistance s t) = 0"
      using p(1) by (simp add: stopDistance_def calculateDistance_same)
  qed
  then have e: "map2 stopDistance tour (rotate1 tour) = map (\<lambda>p. 0) (zip tour (rotate1 tour))"
    by (intro map_cong) auto
  have "sum_list (map (\<lambda>p. 0::real) (zip tour (rotate1 tour))) = 0" by simp
  then show ?thesis unfolding calculateRouteDistance_cyclic cyclic_length_def e .
qed




section \<open>Claims\<close>

subsection \<open>Tours are permutations of the input\<close>




subsection \<open>2-opt against the nearest-neighbour baseline\<close>

lemma K_deg_pos: "0 < K_deg"
  by (simp add: K_deg_def)

lemma calculateDistance_to_pole: "calculateDistance 0 x 90 y = K_deg * 90"
  using calculateDistance_sym[of 0 x 90 y] by (simp add: calculateDistance_pole)

lemma K_deg_less: "K_deg * a < K_deg * b \<longleftrightarrow> a < b"
  using K_deg_pos by simp

lemma K_deg_sum_less: "K_deg * a + K_deg * b < K_deg * c + K_deg * d \<longleftrightarrow> a + b < c + d"
proof -
  have "K_deg * a + K_deg * b = K_deg * (a + b)" "K_deg * c + K_deg * d = K_deg * (c + d)"
    by (simp_all add: distrib_left)
  then show ?thesis by (simp only: K_deg_less)
qed

lemmas pole_detour_distances =
  calculateDistance_equator_half calculateDistance_equator_wrap
  calculateDistance_pole calculateDistance_to_pole

lemma pole_detour_stop_at:
  "stop_at pole_detour 0 = Inr \<lparr>stop_id = ''a'', lat = 0, lng = 0\<rparr>"
  "stop_at pole_detour 1 = Inr \<lparr>stop_id = ''b'', lat = 0, lng = 70\<rparr>"
  "stop_at pole_detour 2 = Inr \<lparr>stop_id = ''c'', lat = 90, lng = 0\<rparr>"
  "stop_at pole_detour 3 = Inr \<lparr>stop_id = ''d'', lat = 0, lng = 150\<rparr>"
  "stop_at pole_detour 4 = Inr \<lparr>stop_id = ''e'', lat = 0, lng = - 140\<rparr>"
  by (simp_all add: stop_at_def pole_detour_def)

lemma pole_detour_scan_0:
  "nn_scan pole_detour 0 [1, 2, 3, 4] (- 1, PosInf) = Inr (1, Num (K_deg * 70))"
  by (simp add: pole_detour_stop_at pole_detour_distances K_deg_less)

lemma pole_detour_scan_1:
  "nn_scan pole_detour 1 [2, 3, 4] (- 1, PosInf) = Inr (3, Num (K_deg * 80))"
  by (simp add: pole_detour_stop_at pole_detour_distances K_deg_less)

lemma pole_detour_scan_3:
  "nn_scan pole_detour 3 [2, 4] (- 1, PosInf) = Inr (4, Num (K_deg * 70))"
  by (simp add: pole_detour_stop_at pole_detour_distances K_deg_less)

lemma pole_detour_scan_4:
  "nn_scan pole_detour 4 [2] (- 1, PosInf) = Inr (2, Num (K_deg * 90))"
  by (simp add: pole_detour_stop_at pole_detour_distances K_deg_less)


lemma pole_detour_nn_loop: "nn_loop pole_detour [0] [1, 2, 3, 4] = Inr [0, 1, 3, 4, 2]"
proof -
  have "nn_loop pole_detour [0] [1, 2, 3, 4] = nn_loop pole_detour [0, 1] [2, 3, 4]"
    by (subst nn_loop.simps) (simp add: pole_detour_scan_0 del: nn_scan.simps)
  also have "\<dots> = nn_loop pole_detour [0, 1, 3] [2, 4]"
    by (subst nn_loop.simps) (simp add: pole_detour_scan_1 del: nn_scan.simps)
  also have "\<dots> = nn_loop pole_detour [0, 1, 3, 4] [2]"
    by (subst nn_loop.simps) (simp add: pole_detour_scan_3 del: nn_scan.simps)
  also have "\<dots> = nn_loop pole_detour [0, 1, 3, 4, 2] []"
    by (subst nn_loop.simps) (simp add: pole_detour_scan_4 del: nn_scan.simps)
  also have "\<dots> = Inr [0, 1, 3, 4, 2]"
    by (subst nn_loop.simps) simp
  finally show ?thesis .
qed

lemma K_deg_add: "K_deg * a + K_deg * b = K_deg * (a + b)"
  by (simp add: distrib_left)

lemma pole_detour_nn_distance:
  "calculateRouteDistance
     [\<lparr>stop_id = ''a'', lat = 0, lng = 0\<rparr>, \<lparr>stop_id = ''b'', lat = 0, lng = 70\<rparr>,
      \<lparr>stop_id = ''d'', lat = 0, lng = 150\<rparr>, \<lparr>stop_id = ''e'', lat = 0, lng = - 140\<rparr>,
      \<lparr>stop_id = ''c'', lat = 90, lng = 0\<rparr>] = K_deg * 400"
  by (simp add: calculateRouteDistance_cyclic cyclic_length_def stopDistance_def
        pole_detour_distances K_deg_add)

lemma pole_detour_input_distance: "calculateRouteDistance pole_detour = K_deg * 460"
  by (simp add: pole_detour_def calculateRouteDistance_cyclic cyclic_length_def stopDistance_def
        pole_detour_distances K_deg_add)

lemma pole_detour_indices: "map int [0..<length pole_detour] = [0, 1, 2, 3, 4]"
proof -
  have "[0..<5] = [0, 1, 2, 3, 4]" by (simp add: upt_rec)
  then show ?thesis by (simp add: pole_detour_def)
qed

lemma pole_detour_nearestNeighbor:
  "nearestNeighbor pole_detour =
     Inr \<lparr>stops = [\<lparr>stop_id = ''a'', lat = 0, lng = 0\<rparr>, \<lparr>stop_id = ''b'', lat = 0, lng = 70\<rparr>,
                  \<lparr>stop_id = ''d'', lat = 0, lng = 150\<rparr>, \<lparr>stop_id = ''e'', lat = 0, lng = - 140\<rparr>,
                  \<lparr>stop_id = ''c'', lat = 90, lng = 0\<rparr>],
          distance = K_deg * 400, improvement = Num 0\<rparr>"
proof -
  have l: "\<not> length pole_detour < 2" by (simp add: pole_detour_def)
  have s: "stops_of pole_detour [0, 1, 3, 4, 2] =
             Inr [\<lparr>stop_id = ''a'', lat = 0, lng = 0\<rparr>, \<lparr>stop_id = ''b'', lat = 0, lng = 70\<rparr>,
                  \<lparr>stop_id = ''d'', lat = 0, lng = 150\<rparr>, \<lparr>stop_id = ''e'', lat = 0, lng = - 140\<rparr>,
                  \<lparr>stop_id = ''c'', lat = 90, lng = 0\<rparr>]"
    by (simp add: stops_of_def pole_detour_stop_at)
  show ?thesis
    unfolding nearestNeighbor_def pole_detour_indices
    using l by (simp add: pole_detour_nn_loop s pole_detour_nn_distance)
qed


lemma pole_detour_exchange:
  "twoOpt_exchange pole_detour 0 2 ([0, 1, 2, 3, 4], False) = Inr ([0, 1, 2, 3, 4], False)"
  "twoOpt_exchange pole_detour 0 3 ([0, 1, 2, 3, 4], False) = Inr ([0, 1, 2, 3, 4], False)"
  "twoOpt_exchange pole_detour 0 4 ([0, 1, 2, 3, 4], False) = Inr ([0, 1, 2, 3, 4], False)"
  "twoOpt_exchange pole_detour 1 3 ([0, 1, 2, 3, 4], False) = Inr ([0, 1, 2, 3, 4], False)"
  "twoOpt_exchange pole_detour 1 4 ([0, 1, 2, 3, 4], False) = Inr ([0, 1, 2, 3, 4], False)"
  "twoOpt_exchange pole_detour 2 4 ([0, 1, 2, 3, 4], False) = Inr ([0, 1, 2, 3, 4], False)"
  using K_deg_pos
  by (simp_all add: twoOpt_exchange_def pole_detour_stop_at pole_detour_distances
        K_deg_sum_less Let_def)

lemma pole_detour_inner:
  "twoOpt_j pole_detour 0 2 ([0, 1, 2, 3, 4], False) = Inr ([0, 1, 2, 3, 4], False)"
  "twoOpt_j pole_detour 1 3 ([0, 1, 2, 3, 4], False) = Inr ([0, 1, 2, 3, 4], False)"
  "twoOpt_j pole_detour 2 4 ([0, 1, 2, 3, 4], False) = Inr ([0, 1, 2, 3, 4], False)"
  using pole_detour_exchange
  by (simp_all add: twoOpt_j.simps del: One_nat_def add_2_eq_Suc add_2_eq_Suc')

lemma pole_detour_pass:
  "twoOpt_i pole_detour 0 ([0, 1, 2, 3, 4], False) = Inr ([0, 1, 2, 3, 4], False)"
  using pole_detour_inner
  by (simp add: twoOpt_i.simps del: One_nat_def add_2_eq_Suc add_2_eq_Suc')

lemma pole_detour_while:
  "twoOpt_while pole_detour 100 ([0, 1, 2, 3, 4], True, 0) = Inr [0, 1, 2, 3, 4]"
  using pole_detour_pass by (simp add: twoOpt_while.simps)

text \<open>
  C2: the distance of the tour returned by \<^const>\<open>twoOpt\<close> is at most the distance of
  the nearest-neighbour tour. It fails at this input. 2-opt does not start from the
  nearest-neighbour order: its working route is the identity over the input,
  \<^verbatim>\<open>nnResult.stops.map((s, i) => i)\<close>, so what each accepted exchange shortens is the
  input order (lemma \<open>twoOpt_not_longer_than_input\<close>). Here the input order admits no
  improving exchange and is returned as it is, with a distance of 460 degrees of arc, while
  the nearest-neighbour tour has 400; the reported improvement is -15 percent.
\<close>

theorem twoOpt_worse_than_nearestNeighbor:
  "\<exists>res nn. twoOpt pole_detour 100 = Inr res \<and> nearestNeighbor pole_detour = Inr nn \<and>
     stops res = pole_detour \<and>
     distance res = K_deg * 460 \<and> distance nn = K_deg * 400 \<and>
     distance nn < distance res \<and> improvement res = Num (- 15)"
proof -
  have l: "\<not> length pole_detour < 4" by (simp add: pole_detour_def)
  have s: "stops_of pole_detour [0, 1, 2, 3, 4] = Inr pole_detour"
    by (simp add: stops_of_def pole_detour_stop_at) (simp add: pole_detour_def)
  have k: "K_deg * 400 \<noteq> 0" using K_deg_pos by simp
  have "(K_deg * 400 - K_deg * 460) / (K_deg * 400) * 100 = - 15"
    using K_deg_pos by (simp add: field_simps)
  then have i: "js_mul (js_div (K_deg * 400 - K_deg * 460) (K_deg * 400)) 100 = Num (- 15)"
    using k by (simp add: js_div_def)
  have len: "length [\<lparr>stop_id = ''a'', lat = 0, lng = 0\<rparr>, \<lparr>stop_id = ''b'', lat = 0, lng = 70\<rparr>,
                  \<lparr>stop_id = ''d'', lat = 0, lng = 150\<rparr>, \<lparr>stop_id = ''e'', lat = 0, lng = - 140\<rparr>,
                  \<lparr>stop_id = ''c'', lat = 90, lng = 0\<rparr>] = length pole_detour"
    by (simp add: pole_detour_def)
  have t: "twoOpt pole_detour 100 =
             Inr \<lparr>stops = pole_detour, distance = K_deg * 460, improvement = Num (- 15)\<rparr>"
    unfolding twoOpt_def pole_detour_nearestNeighbor
    using l i pole_detour_while s
    by (simp add: len pole_detour_indices pole_detour_input_distance
          pole_detour_nn_distance Let_def del: length_Cons)
  have "K_deg * 400 < K_deg * 460" by (simp add: K_deg_less)
  with t pole_detour_nearestNeighbor show ?thesis by simp
qed

subsection \<open>The comparator\<close>


subsection \<open>Small inputs\<close>



subsection \<open>The reported distance\<close>





subsection \<open>Ties\<close>





subsection \<open>Rotation and reversal of a tour\<close>


subsection \<open>Determinism of nearest neighbour\<close>


subsection \<open>The genetic search without generations\<close>



subsection \<open>A baseline of zero\<close>

text \<open>
  C10. The improvement of \<^const>\<open>twoOpt\<close> and of \<^const>\<open>geneticAlgorithm\<close> is a division by
  the nearest-neighbour distance with no guard: for every input of at least 4 stops that
  are all at the same coordinates the nearest-neighbour distance is 0, the division is
  \<open>0 / 0\<close>, and the reported improvement is \<^verbatim>\<open>NaN\<close>, not the 0 reported for fewer than 4
  stops.
\<close>

theorem zero_baseline_improvement:
  assumes "4 \<le> length ss" "\<forall>s\<in>set ss. lat s = la \<and> lng s = lo"
  shows "(\<exists>res nn. twoOpt ss maxIterations = Inr res \<and> nearestNeighbor ss = Inr nn \<and>
            distance nn = 0 \<and> distance res = 0 \<and>
            improvement res = js_mul (js_div (distance nn - distance res) (distance nn)) 100 \<and>
            improvement res = NaN \<and> improvement res \<noteq> Num 0) \<and>
         (0 < populationSize \<longrightarrow>
            (\<exists>res c' nn. geneticAlgorithm r c ss populationSize generations = Some (Inr (res, c')) \<and>
               nearestNeighbor ss = Inr nn \<and> distance nn = 0 \<and> distance res = 0 \<and>
               improvement res = js_mul (js_div (distance nn - distance res) (distance nn)) 100 \<and>
               improvement res = NaN \<and> improvement res \<noteq> Num 0))"
proof -
  have n4: "\<not> length ss < 4" using assms(1) by simp
  have zero: "\<And>tour. mset tour = mset ss \<Longrightarrow> calculateRouteDistance tour = 0"
  proof -
    fix tour :: "Stop list" assume "mset tour = mset ss"
    then have "set tour = set ss" by (rule mset_eq_setD)
    then have "\<forall>s\<in>set tour. lat s = la \<and> lng s = lo" using assms(2) by simp
    then show "calculateRouteDistance tour = 0" by (rule same_place_distance)
  qed
  have nan: "js_mul (js_div (0 - 0) 0) 100 = NaN" by (simp add: js_div_def)
  show ?thesis
  proof (intro conjI impI)
    from twoOpt_returns[of ss maxIterations] obtain res nn where
      t: "twoOpt ss maxIterations = Inr res" "nearestNeighbor ss = Inr nn"
         "mset (stops res) = mset ss" "distance res = calculateRouteDistance (stops res)"
         "improvement res = js_mul (js_div (distance nn - distance res) (distance nn)) 100"
      using n4 by auto
    from nearestNeighbor_returns[of ss] t(2) have
      "mset (stops nn) = mset ss" "distance nn = calculateRouteDistance (stops nn)"
      by auto
    then have dn: "distance nn = 0" using zero by simp
    have dr: "distance res = 0" using t(3,4) zero by simp
    have "improvement res = NaN" using t(5) dn dr nan by simp
    with t dn dr show "\<exists>res nn. twoOpt ss maxIterations = Inr res \<and> nearestNeighbor ss = Inr nn \<and>
            distance nn = 0 \<and> distance res = 0 \<and>
            improvement res = js_mul (js_div (distance nn - distance res) (distance nn)) 100 \<and>
            improvement res = NaN \<and> improvement res \<noteq> Num 0"
      by auto
  next
    assume "0 < populationSize"
    then have "0 < populationSize \<or> length ss < 4" by simp
    from geneticAlgorithm_returns[OF this, of r c generations] obtain res c' nn where
      g: "geneticAlgorithm r c ss populationSize generations = Some (Inr (res, c'))"
         "nearestNeighbor ss = Inr nn"
         "mset (stops res) = mset ss" "distance res = calculateRouteDistance (stops res)"
         "improvement res = js_mul (js_div (distance nn - distance res) (distance nn)) 100"
      using n4 by auto
    from nearestNeighbor_returns[of ss] g(2) have
      "mset (stops nn) = mset ss" "distance nn = calculateRouteDistance (stops nn)"
      by auto
    then have dn: "distance nn = 0" using zero by simp
    have dr: "distance res = 0" using g(3,4) zero by simp
    have "improvement res = NaN" using g(5) dn dr nan by simp
    with g dn dr show "\<exists>res c' nn.
               geneticAlgorithm r c ss populationSize generations = Some (Inr (res, c')) \<and>
               nearestNeighbor ss = Inr nn \<and> distance nn = 0 \<and> distance res = 0 \<and>
               improvement res = js_mul (js_div (distance nn - distance res) (distance nn)) 100 \<and>
               improvement res = NaN \<and> improvement res \<noteq> Num 0"
      by auto
  qed
qed

theorem zero_baseline_improvement_witness:
  "4 \<le> length same_place \<and> list_all (\<lambda>s. lat s = 40 \<and> lng s = - 74) same_place \<and>
   (0::nat) < 50 \<and>
   (\<exists>res nn. twoOpt same_place 100 = Inr res \<and> nearestNeighbor same_place = Inr nn \<and>
      distance nn = 0 \<and> improvement res = NaN) \<and>
   (\<exists>res c'. geneticAlgorithm zero_rng 0 same_place 50 100 = Some (Inr (res, c')) \<and>
      improvement res = NaN)"
proof -
  have l: "4 \<le> length same_place" by (simp add: same_place_def)
  have s: "\<forall>s\<in>set same_place. lat s = 40 \<and> lng s = - 74" by (simp add: same_place_def)
  have p: "(0::nat) < 50" by simp
  have a: "list_all (\<lambda>s. lat s = 40 \<and> lng s = - 74) same_place" by (simp add: same_place_def)
  from zero_baseline_improvement[OF l s, of 100 50 zero_rng 0 100] l a p show ?thesis by blast
qed

end
